theory Spec2Isabelle
  imports Main "HOL-Library.FSet"
begin

section \<open>Word ladder: class WordLadderGame\<close>

text \<open>
  The game object holds the dictionary as a Python set of strings, built from the list
  handed to the constructor. A Python set is finite, hence a finite set here.
\<close>

record word_ladder_game =
  word_list :: "string fset"

definition word_ladder_init :: "string list \<Rightarrow> word_ladder_game" where
  "word_ladder_init ws = \<lparr>word_list = fset_of_list ws\<rparr>"

definition alphabet :: string where
  "alphabet = ''abcdefghijklmnopqrstuvwxyz''"

definition get_neighbors :: "word_ladder_game \<Rightarrow> string \<Rightarrow> string list" where
  "get_neighbors g word =
     concat (map (\<lambda>i. concat (map (\<lambda>c.
        let new_word = take i word @ [c] @ drop (i + 1) word
        in if new_word \<noteq> word \<and> new_word |\<in>| word_list g then [new_word] else [])
      alphabet)) [0..<length word])"

fun enqueue_neighbors ::
  "string list \<Rightarrow> string list \<Rightarrow> string fset \<Rightarrow> (string \<times> string list) list
     \<Rightarrow> string fset \<times> (string \<times> string list) list" where
  "enqueue_neighbors path [] visited queue = (visited, queue)"
| "enqueue_neighbors path (neighbor # ns) visited queue =
     (if neighbor |\<notin>| visited
      then enqueue_neighbors path ns (finsert neighbor visited) (queue @ [(neighbor, path @ [neighbor])])
      else enqueue_neighbors path ns visited queue)"

lemma get_neighbors_in_dict: "n \<in> set (get_neighbors g w) \<Longrightarrow> n |\<in>| word_list g"
  by (auto simp: get_neighbors_def Let_def split: if_splits)

lemma enqueue_neighbors_measure:
  "enqueue_neighbors p ns v q = (v', q') \<Longrightarrow> \<forall>n \<in> set ns. n |\<in>| wl \<Longrightarrow>
     (v' = v \<and> q' = q) \<or> card (fset wl - fset v') < card (fset wl - fset v)"
proof (induction ns arbitrary: v q)
  case Nil
  then show ?case by simp
next
  case (Cons n ns)
  show ?case
  proof (cases "n |\<in>| v")
    case True
    with Cons show ?thesis by simp
  next
    case False
    let ?v1 = "finsert n v"
    from Cons.prems False
    have run: "enqueue_neighbors p ns ?v1 (q @ [(n, p @ [n])]) = (v', q')" by simp
    from Cons.prems have nwl: "n |\<in>| wl" and rest: "\<forall>n \<in> set ns. n |\<in>| wl" by simp_all
    have "fset wl - fset ?v1 \<subset> fset wl - fset v" using False nwl by auto
    then have dec: "card (fset wl - fset ?v1) < card (fset wl - fset v)"
      by (simp add: psubset_card_mono)
    from Cons.IH[OF run rest] dec show ?thesis by auto
  qed
qed

function bfs_loop ::
  "word_ladder_game \<Rightarrow> string \<Rightarrow> (string \<times> string list) list \<Rightarrow> string fset
     \<Rightarrow> string list option" where
  "bfs_loop g end_word [] visited = None"
| "bfs_loop g end_word ((current_word, path) # queue) visited =
     (if current_word = end_word then Some path
      else case enqueue_neighbors path (get_neighbors g current_word) visited queue of
             (visited', queue') \<Rightarrow> bfs_loop g end_word queue' visited')"
  by pat_completeness auto
termination
  apply (relation "inv_image (less_than <*lex*> less_than)
         (\<lambda>(g, e, q, v). (card (fset (word_list g) - fset v), length q))")
   apply (intro wf_inv_image wf_lex_prod wf_less_than)
  subgoal for g end_word current_word path queue visited v' q'
    using enqueue_neighbors_measure[of path "get_neighbors g current_word" visited queue v' q' "word_list g"]
      get_neighbors_in_dict[of _ g current_word]
    by auto
  done

definition find_shortest_path ::
  "word_ladder_game \<Rightarrow> string \<Rightarrow> string \<Rightarrow> string list option" where
  "find_shortest_path g start_word end_word =
     (if start_word |\<notin>| word_list g \<or> end_word |\<notin>| word_list g then None
      else bfs_loop g end_word [(start_word, [start_word])] {|start_word|})"


definition differ_by_one :: "string \<Rightarrow> string \<Rightarrow> bool" where
  "differ_by_one u v \<longleftrightarrow>
     length u = length v \<and> length (filter (\<lambda>(a, b). a \<noteq> b) (zip u v)) = 1"

definition valid_ladder :: "word_ladder_game \<Rightarrow> string \<Rightarrow> string \<Rightarrow> string list \<Rightarrow> bool" where
  "valid_ladder g start_word end_word q \<longleftrightarrow>
     q \<noteq> [] \<and> hd q = start_word \<and> last q = end_word \<and>
     list_all (\<lambda>w. w |\<in>| word_list g) q \<and> successively differ_by_one q"

lemma zip_same_no_diff: "filter (\<lambda>(a, b). a \<noteq> b) (zip xs xs) = []"
  by (induction xs) auto

lemma substitute_differ:
  assumes "i < length w" "c \<noteq> w ! i"
  shows "differ_by_one w (take i w @ [c] @ drop (i + 1) w)"
proof -
  have w: "w = take i w @ [w ! i] @ drop (i + 1) w"
    using assms(1) by (simp add: id_take_nth_drop)
  have "zip w (take i w @ [c] @ drop (i + 1) w)
        = zip (take i w @ [w ! i] @ drop (i + 1) w) (take i w @ [c] @ drop (i + 1) w)"
    using w by simp
  also have "\<dots> = zip (take i w) (take i w) @ [(w ! i, c)] @ zip (drop (i + 1) w) (drop (i + 1) w)"
    by simp
  finally show ?thesis
    using assms by (simp add: differ_by_one_def zip_same_no_diff)
qed

lemma substitute_nth:
  assumes "i < length w" "take i w @ [c] @ drop (i + 1) w \<noteq> w"
  shows "c \<noteq> w ! i"
  using assms id_take_nth_drop[of i w] by auto

lemma get_neighbors_differ:
  assumes "n \<in> set (get_neighbors g w)"
  shows "differ_by_one w n"
proof -
  from assms obtain i c where i: "i < length w" and n: "n = take i w @ [c] @ drop (i + 1) w"
    and ne: "n \<noteq> w"
    by (auto simp: get_neighbors_def Let_def split: if_splits)
  from substitute_nth[OF i] n ne have "c \<noteq> w ! i" by simp
  from substitute_differ[OF i this] n show ?thesis by simp
qed

lemma no_diff_eq:
  "length u = length v \<Longrightarrow> filter (\<lambda>(a, b). a \<noteq> b) (zip u v) = [] \<Longrightarrow> u = v"
  by (induction u v rule: list_induct2) (auto split: if_splits)

lemma differ_by_one_position:
  assumes "length u = length v" "length (filter (\<lambda>(a, b). a \<noteq> b) (zip u v)) = 1"
  shows "\<exists>i < length u. v = take i u @ [v ! i] @ drop (i + 1) u \<and> v \<noteq> u"
  using assms
proof (induction u v rule: list_induct2)
  case Nil
  then show ?case by simp
next
  case (Cons a u b v)
  show ?case
  proof (cases "a = b")
    case True
    with Cons.prems have "length (filter (\<lambda>(a, b). a \<noteq> b) (zip u v)) = 1" by simp
    from Cons.IH[OF this] obtain i where i: "i < length u"
      and v: "v = take i u @ [v ! i] @ drop (i + 1) u" and ne: "v \<noteq> u" by blast
    have "b # v = take (Suc i) (a # u) @ [(b # v) ! Suc i] @ drop (Suc i + 1) (a # u)"
      using v True by simp
    with i ne True show ?thesis by (intro exI[of _ "Suc i"]) auto
  next
    case False
    with Cons.prems have "filter (\<lambda>(a, b). a \<noteq> b) (zip u v) = []" by simp
    from no_diff_eq[OF Cons.hyps this] have "u = v" .
    with False show ?thesis by (intro exI[of _ 0]) auto
  qed
qed

lemma get_neighbors_complete:
  assumes "differ_by_one u x" "x |\<in>| word_list g" "set x \<subseteq> set alphabet"
  shows "x \<in> set (get_neighbors g u)"
proof -
  from assms(1) have len: "length u = length x" by (simp add: differ_by_one_def)
  from differ_by_one_position[OF len] assms(1)
  obtain i where i: "i < length u" and x: "x = take i u @ [x ! i] @ drop (i + 1) u"
    and ne: "x \<noteq> u" by (auto simp: differ_by_one_def)
  have "x ! i \<in> set alphabet" using assms(3) i len by (metis nth_mem subsetD)
  with i x ne assms(2) show ?thesis
    unfolding get_neighbors_def Let_def
    by (auto intro!: bexI[of _ i] bexI[of _ "x ! i"])
qed


definition ladder_ok :: "word_ladder_game \<Rightarrow> string \<Rightarrow> string \<times> string list \<Rightarrow> bool" where
  "ladder_ok g s e \<longleftrightarrow>
     snd e \<noteq> [] \<and> hd (snd e) = s \<and> last (snd e) = fst e \<and> distinct (snd e) \<and>
     list_all (\<lambda>w. w |\<in>| word_list g) (snd e) \<and> successively differ_by_one (snd e)"

definition entry_ok :: "word_ladder_game \<Rightarrow> string \<Rightarrow> string fset \<Rightarrow> string \<times> string list \<Rightarrow> bool" where
  "entry_ok g s v e \<longleftrightarrow> ladder_ok g s e \<and> list_all (\<lambda>w. w |\<in>| v) (snd e)"

lemma enqueue_neighbors_char:
  "enqueue_neighbors path ns v q = (v', q') \<Longrightarrow>
     \<exists>new. q' = q @ map (\<lambda>n. (n, path @ [n])) new \<and> fset v' = fset v \<union> set new \<and>
           set new = set ns - fset v \<and> distinct new"
proof (induction ns arbitrary: v q)
  case Nil
  then show ?case by simp
next
  case (Cons n ns)
  show ?case
  proof (cases "n |\<in>| v")
    case True
    with Cons.prems have "enqueue_neighbors path ns v q = (v', q')" by simp
    from Cons.IH[OF this] obtain new where
      "q' = q @ map (\<lambda>n. (n, path @ [n])) new" "fset v' = fset v \<union> set new"
      "set new = set ns - fset v" "distinct new" by blast
    with True show ?thesis by (intro exI[of _ new]) auto
  next
    case False
    with Cons.prems
    have "enqueue_neighbors path ns (finsert n v) (q @ [(n, path @ [n])]) = (v', q')" by simp
    from Cons.IH[OF this] obtain new where new:
      "q' = (q @ [(n, path @ [n])]) @ map (\<lambda>n. (n, path @ [n])) new"
      "fset v' = fset (finsert n v) \<union> set new"
      "set new = set ns - fset (finsert n v)" "distinct new" by blast
    with False show ?thesis by (intro exI[of _ "n # new"]) auto
  qed
qed

lemma entry_ok_mono: "entry_ok g s v e \<Longrightarrow> fset v \<subseteq> fset v' \<Longrightarrow> entry_ok g s v' e"
  by (auto simp: entry_ok_def list_all_iff)

lemma entry_ok_extend:
  assumes ok: "entry_ok g s v (w, path)" and n: "n \<in> set (get_neighbors g w)" "n |\<notin>| v"
    and v': "fset v \<subseteq> fset v'" "n |\<in>| v'"
  shows "entry_ok g s v' (n, path @ [n])"
proof -
  from ok have p: "path \<noteq> []" "hd path = s" "last path = w" "distinct path"
    "list_all (\<lambda>w. w |\<in>| word_list g) path" "successively differ_by_one path"
    "list_all (\<lambda>w. w |\<in>| v) path"
    by (simp_all add: entry_ok_def ladder_ok_def)
  from p(7) n(2) have "n \<notin> set path" by (auto simp: list_all_iff)
  moreover have "differ_by_one (last path) n" using n(1) p(3) by (simp add: get_neighbors_differ)
  moreover have "n |\<in>| word_list g" using n(1) by (rule get_neighbors_in_dict)
  ultimately show ?thesis
    using p v' by (auto simp: entry_ok_def ladder_ok_def list_all_iff successively_append_iff)
qed

lemma enqueue_neighbors_entry_ok:
  assumes run: "enqueue_neighbors path (get_neighbors g w) v q = (v', q')"
    and hd: "entry_ok g s v (w, path)" and q: "\<forall>e \<in> set q. entry_ok g s v e"
  shows "\<forall>e \<in> set q'. entry_ok g s v' e"
proof -
  from enqueue_neighbors_char[OF run] obtain new where new:
    "q' = q @ map (\<lambda>n. (n, path @ [n])) new" "fset v' = fset v \<union> set new"
    "set new = set (get_neighbors g w) - fset v" by blast
  have sub: "fset v \<subseteq> fset v'" using new(2) by auto
  show ?thesis
  proof
    fix e assume "e \<in> set q'"
    with new(1) consider "e \<in> set q" | n where "n \<in> set new" "e = (n, path @ [n])" by auto
    then show "entry_ok g s v' e"
    proof cases
      case 1
      with q sub show ?thesis by (blast intro: entry_ok_mono)
    next
      case 2
      with new have "n \<in> set (get_neighbors g w)" "n |\<notin>| v" "n |\<in>| v'" by auto
      from entry_ok_extend[OF hd this(1,2) sub this(3)] 2 show ?thesis by simp
    qed
  qed
qed

lemma bfs_loop_ladder_ok:
  "bfs_loop g end_word q v = Some P \<Longrightarrow> \<forall>e \<in> set q. entry_ok g s v e \<Longrightarrow>
     ladder_ok g s (end_word, P)"
proof (induction g end_word q v rule: bfs_loop.induct)
  case (1 g end_word visited)
  then show ?case by simp
next
  case (2 g end_word current_word path queue visited)
  show ?case
  proof (cases "current_word = end_word")
    case True
    with "2.prems" show ?thesis by (simp add: entry_ok_def)
  next
    case False
    obtain v' q' where run:
      "enqueue_neighbors path (get_neighbors g current_word) visited queue = (v', q')"
      by (cases "enqueue_neighbors path (get_neighbors g current_word) visited queue")
    from "2.prems"(1) False run have res: "bfs_loop g end_word q' v' = Some P" by simp
    from "2.prems"(2) have "entry_ok g s visited (current_word, path)"
      "\<forall>e \<in> set queue. entry_ok g s visited e" by simp_all
    from enqueue_neighbors_entry_ok[OF run this] have "\<forall>e \<in> set q'. entry_ok g s v' e" .
    from "2.IH"[OF False run[symmetric] res this] show ?thesis .
  qed
qed

lemma find_shortest_path_ladder_ok:
  assumes "find_shortest_path g start_word end_word = Some P"
  shows "ladder_ok g start_word (end_word, P)"
proof -
  from assms have mem: "start_word |\<in>| word_list g"
    and run: "bfs_loop g end_word [(start_word, [start_word])] {|start_word|} = Some P"
    by (auto simp: find_shortest_path_def split: if_splits)
  have "\<forall>e \<in> set [(start_word, [start_word])]. entry_ok g start_word {|start_word|} e"
    using mem by (simp add: entry_ok_def ladder_ok_def)
  from bfs_loop_ladder_ok[OF run this] show ?thesis .
qed

text \<open>
  C10. Every path returned by \<open>find_shortest_path\<close> is a valid word ladder: each of its
  words is a member of the word set, consecutive words differ in exactly one character
  position, and no word occurs twice. The queue invariant behind it is \<open>entry_ok\<close>, kept by
  every dequeue and enqueue step (\<open>enqueue_neighbors_entry_ok\<close>, \<open>bfs_loop_ladder_ok\<close>).
\<close>

theorem find_shortest_path_valid_ladder:
  assumes "find_shortest_path g start_word end_word = Some P"
  shows "list_all (\<lambda>w. w |\<in>| word_list g) P \<and> successively differ_by_one P \<and> distinct P"
  using find_shortest_path_ladder_ok[OF assms] by (simp add: ladder_ok_def)

theorem find_shortest_path_valid_ladder_witness:
  "find_shortest_path (word_ladder_init [''cat'', ''cot'', ''cog'', ''dog'']) ''cat'' ''dog''
     = Some [''cat'', ''cot'', ''cog'', ''dog''] \<and>
   list_all (\<lambda>w. w |\<in>| word_list (word_ladder_init [''cat'', ''cot'', ''cog'', ''dog'']))
     [''cat'', ''cot'', ''cog'', ''dog''] \<and>
   successively differ_by_one [''cat'', ''cot'', ''cog'', ''dog''] \<and>
   distinct [''cat'', ''cot'', ''cog'', ''dog'']"
proof -
  have run: "find_shortest_path (word_ladder_init [''cat'', ''cot'', ''cog'', ''dog'']) ''cat'' ''dog''
     = Some [''cat'', ''cot'', ''cog'', ''dog'']"
    by code_simp
  from find_shortest_path_valid_ladder[OF run] run show ?thesis by simp
qed

subsection \<open>Shortest-path optimality of the breadth-first search\<close>

text \<open>
  \<open>within g s k\<close> is the set of words the search can reach from \<open>s\<close> in at most \<open>k\<close>
  substitutions of \<open>get_neighbors\<close>. It is a notion of the proof, not of the source.
\<close>

primrec within :: "word_ladder_game \<Rightarrow> string \<Rightarrow> nat \<Rightarrow> string set" where
  "within g s 0 = {s}"
| "within g s (Suc k) = within g s k \<union> {x. \<exists>u \<in> within g s k. x \<in> set (get_neighbors g u)}"

definition lowercase_words :: "word_ladder_game \<Rightarrow> bool" where
  "lowercase_words g \<longleftrightarrow> fBall (word_list g) (\<lambda>w. list_all (\<lambda>c. c \<in> set alphabet) w)"

definition bfs_inv ::
  "word_ladder_game \<Rightarrow> string \<Rightarrow> (string \<times> string list) list \<Rightarrow> string fset \<Rightarrow> bool" where
  "bfs_inv g s q v \<longleftrightarrow>
     (\<forall>e \<in> set q. snd e \<noteq> [] \<and> length (snd e) \<le> Suc (length (snd (hd q))) \<and>
                  (\<forall>j. Suc j < length (snd e) \<longrightarrow> fst e \<notin> within g s j)) \<and>
     sorted (map (\<lambda>e. length (snd e)) q) \<and>
     (q \<noteq> [] \<longrightarrow> within g s (length (snd (hd q)) - 1) \<subseteq> fset v) \<and>
     (\<forall>x. x |\<in>| v \<longrightarrow> x \<in> fst ` set q \<or> set (get_neighbors g x) \<subseteq> fset v)"

lemma within_mono: "j \<le> k \<Longrightarrow> within g s j \<subseteq> within g s k"
  by (induction k) (auto simp: le_Suc_eq)

lemma bfs_inv_step:
  assumes inv: "bfs_inv g s ((cur, path) # rest) v"
    and run: "enqueue_neighbors path (get_neighbors g cur) v rest = (v', q')"
  shows "bfs_inv g s q' v'"
proof -
  let ?L = "length path"
  let ?len = "\<lambda>e :: string \<times> string list. length (snd e)"
  from enqueue_neighbors_char[OF run] obtain new where
    q': "q' = rest @ map (\<lambda>n. (n, path @ [n])) new" and v': "fset v' = fset v \<union> set new"
    and new: "set new = set (get_neighbors g cur) - fset v" by blast
  from inv have L: "path \<noteq> []" by (simp add: bfs_inv_def)
  from inv have sorted_old: "sorted (?L # map ?len rest)" by (simp add: bfs_inv_def)
  from inv have rest_ne: "\<forall>e \<in> set rest. snd e \<noteq> []" by (simp add: bfs_inv_def)
  from inv have rest_hi: "\<forall>e \<in> set rest. ?len e \<le> Suc ?L" by (simp add: bfs_inv_def)
  from sorted_old have rest_lo: "\<forall>e \<in> set rest. ?L \<le> ?len e" by auto
  from inv have rest_lvl: "\<forall>e \<in> set rest. \<forall>j. Suc j < ?len e \<longrightarrow> fst e \<notin> within g s j"
    by (simp add: bfs_inv_def)
  from inv have lvl: "within g s (?L - 1) \<subseteq> fset v" by (simp add: bfs_inv_def)
  from inv have closed: "\<forall>x. x |\<in>| v \<longrightarrow> x = cur \<or> x \<in> fst ` set rest \<or>
      set (get_neighbors g x) \<subseteq> fset v"
    by (simp add: bfs_inv_def)
  have cur_closed: "set (get_neighbors g cur) \<subseteq> fset v'" using new v' by auto
  have sub: "fset v \<subseteq> fset v'" using v' by auto
  have new_lvl: "\<forall>n \<in> set new. \<forall>j. Suc j < Suc ?L \<longrightarrow> n \<notin> within g s j"
  proof (intro ballI allI impI)
    fix n j assume n: "n \<in> set new" and j: "Suc j < Suc ?L"
    then have "within g s j \<subseteq> within g s (?L - 1)" by (intro within_mono) simp
    with lvl n new show "n \<notin> within g s j" by auto
  qed
  have all_lo: "\<forall>e \<in> set q'. ?L \<le> ?len e" using rest_lo q' by auto
  have all_hi: "\<forall>e \<in> set q'. ?len e \<le> Suc ?L" using rest_hi q' by auto
  have c1: "\<forall>e \<in> set q'. snd e \<noteq> [] \<and> ?len e \<le> Suc (?len (hd q')) \<and>
              (\<forall>j. Suc j < ?len e \<longrightarrow> fst e \<notin> within g s j)"
  proof
    fix e assume e: "e \<in> set q'"
    then have "q' \<noteq> []" by auto
    then have "hd q' \<in> set q'" by simp
    with all_lo have "?L \<le> ?len (hd q')" by blast
    with all_hi e have hi: "?len e \<le> Suc (?len (hd q'))" by fastforce
    from e q' consider "e \<in> set rest" | n where "n \<in> set new" "e = (n, path @ [n])" by auto
    then have "snd e \<noteq> [] \<and> (\<forall>j. Suc j < ?len e \<longrightarrow> fst e \<notin> within g s j)"
    proof cases
      case 1
      with rest_ne rest_lvl show ?thesis by blast
    next
      case 2
      with new_lvl show ?thesis by simp
    qed
    with hi show "snd e \<noteq> [] \<and> ?len e \<le> Suc (?len (hd q')) \<and>
              (\<forall>j. Suc j < ?len e \<longrightarrow> fst e \<notin> within g s j)" by blast
  qed
  have c2: "sorted (map ?len q')"
  proof -
    have "map ?len q' = map ?len rest @ replicate (length new) (Suc ?L)"
      unfolding q' by (simp add: map_replicate_const comp_def)
    moreover have "sorted (map ?len rest)" using sorted_old by simp
    moreover have "sorted (replicate (length new) (Suc ?L))" by simp
    ultimately show ?thesis using rest_hi by (auto simp: sorted_append)
  qed
  have c3: "within g s (?len (hd q') - 1) \<subseteq> fset v'" if ne: "q' \<noteq> []"
  proof -
    from ne have hdin: "hd q' \<in> set q'" by simp
    with all_lo all_hi have "?len (hd q') = ?L \<or> ?len (hd q') = Suc ?L" by fastforce
    then show ?thesis
    proof
      assume "?len (hd q') = ?L"
      with lvl sub show ?thesis by auto
    next
      assume hd: "?len (hd q') = Suc ?L"
      have rest_all: "\<forall>e \<in> set rest. ?len e = Suc ?L"
      proof
        fix e assume e: "e \<in> set rest"
        then have "rest \<noteq> []" by auto
        then have "hd q' = hd rest" using q' by simp
        moreover have "?len (hd rest) \<le> ?len e"
          using sorted_old e \<open>rest \<noteq> []\<close>
          by (cases rest) auto
        ultimately have "Suc ?L \<le> ?len e" using hd by simp
        with rest_hi e show "?len e = Suc ?L" by fastforce
      qed
      have "within g s ?L \<subseteq> fset v'"
      proof
        fix x assume "x \<in> within g s ?L"
        moreover from L have "?L = Suc (?L - 1)" by (cases path) simp_all
        ultimately have "x \<in> within g s (Suc (?L - 1))" by simp
        then consider "x \<in> within g s (?L - 1)"
          | u where "u \<in> within g s (?L - 1)" "x \<in> set (get_neighbors g u)" by auto
        then show "x \<in> fset v'"
        proof cases
          case 1
          with lvl sub show ?thesis by auto
        next
          case 2
          with lvl have uv: "u |\<in>| v" by auto
          from closed uv consider "u = cur" | "u \<in> fst ` set rest"
            | "set (get_neighbors g u) \<subseteq> fset v" by blast
          then show ?thesis
          proof cases
            case 1
            with cur_closed 2 show ?thesis by auto
          next
            case 2
            then obtain e where e: "e \<in> set rest" "u = fst e" by auto
            with rest_all have "Suc (?L - 1) < ?len e" using L by (cases path) auto
            with rest_lvl e have "u \<notin> within g s (?L - 1)" by blast
            with \<open>u \<in> within g s (?L - 1)\<close> show ?thesis by simp
          next
            case 3
            with 2 sub show ?thesis by auto
          qed
        qed
      qed
      with hd show ?thesis by simp
    qed
  qed
  have c4: "\<forall>x. x |\<in>| v' \<longrightarrow> x \<in> fst ` set q' \<or> set (get_neighbors g x) \<subseteq> fset v'"
  proof (intro allI impI)
    fix x assume "x |\<in>| v'"
    with v' consider "x \<in> set new" | "x |\<in>| v" by auto
    then show "x \<in> fst ` set q' \<or> set (get_neighbors g x) \<subseteq> fset v'"
    proof cases
      case 1
      then have "(x, path @ [x]) \<in> set q'" using q' by auto
      then show ?thesis by force
    next
      case 2
      with closed consider "x = cur" | "x \<in> fst ` set rest"
        | "set (get_neighbors g x) \<subseteq> fset v" by blast
      then show ?thesis
      proof cases
        case 1
        with cur_closed show ?thesis by simp
      next
        case 2
        then show ?thesis using q' by auto
      next
        case 3
        with sub show ?thesis by auto
      qed
    qed
  qed
  from c1 c2 c3 c4 show ?thesis unfolding bfs_inv_def by blast
qed

lemma bfs_loop_level:
  "bfs_loop g end_word q v = Some P \<Longrightarrow> bfs_inv g s q v \<Longrightarrow>
     Suc j < length P \<Longrightarrow> end_word \<notin> within g s j"
proof (induction g end_word q v rule: bfs_loop.induct)
  case (1 g end_word visited)
  then show ?case by simp
next
  case (2 g end_word current_word path queue visited)
  show ?case
  proof (cases "current_word = end_word")
    case True
    with "2.prems" show ?thesis by (simp add: bfs_inv_def)
  next
    case False
    obtain v' q' where run:
      "enqueue_neighbors path (get_neighbors g current_word) visited queue = (v', q')"
      by (cases "enqueue_neighbors path (get_neighbors g current_word) visited queue")
    from "2.prems"(1) False run have res: "bfs_loop g end_word q' v' = Some P" by simp
    from bfs_inv_step[OF "2.prems"(2) run] have "bfs_inv g s q' v'" .
    from "2.IH"[OF False run[symmetric] res this "2.prems"(3)] show ?thesis .
  qed
qed

lemma ladder_within:
  assumes low: "lowercase_words g"
  shows "Q \<noteq> [] \<Longrightarrow> hd Q = s \<Longrightarrow> list_all (\<lambda>w. w |\<in>| word_list g) Q \<Longrightarrow>
     successively differ_by_one Q \<Longrightarrow> last Q \<in> within g s (length Q - 1)"
proof (induction Q rule: rev_induct)
  case Nil
  then show ?case by simp
next
  case (snoc x Q)
  show ?case
  proof (cases "Q = []")
    case True
    with snoc.prems show ?thesis by simp
  next
    case False
    with snoc.prems have "hd Q = s" "list_all (\<lambda>w. w |\<in>| word_list g) Q"
      "successively differ_by_one Q" "differ_by_one (last Q) x" "x |\<in>| word_list g"
      by (simp_all add: successively_append_iff)
    from snoc.IH[OF False this(1,2,3)] have "last Q \<in> within g s (length Q - 1)" .
    moreover have "x \<in> set (get_neighbors g (last Q))"
      using \<open>differ_by_one (last Q) x\<close> \<open>x |\<in>| word_list g\<close> low
      by (intro get_neighbors_complete) (auto simp: lowercase_words_def list_all_iff)
    ultimately have "x \<in> within g s (Suc (length Q - 1))" by auto
    moreover have "length (Q @ [x]) - 1 = Suc (length Q - 1)" using False by (cases Q) simp_all
    ultimately show ?thesis by (simp only: last_snoc)
  qed
qed

text \<open>
  C8. For every dictionary, a word set of lowercase strings (\<open>lowercase_words\<close>: every
  word is made of the letters \<open>a\<close> to \<open>z\<close>), and every pair of words: if
  \<open>find_shortest_path\<close> returns a path \<open>P\<close>, then every valid transformation path \<open>Q\<close>
  between the same endpoints (dictionary words, each differing from the previous one in
  exactly one character position) is at least as long as \<open>P\<close>.
\<close>

theorem find_shortest_path_shortest:
  assumes "lowercase_words g"
    and "find_shortest_path g start_word end_word = Some P"
    and "valid_ladder g start_word end_word Q"
  shows "length P \<le> length Q"
proof -
  from assms(2) have run: "bfs_loop g end_word [(start_word, [start_word])] {|start_word|} = Some P"
    by (auto simp: find_shortest_path_def split: if_splits)
  have inv: "bfs_inv g start_word [(start_word, [start_word])] {|start_word|}"
    by (simp add: bfs_inv_def)
  from assms(3) have Q: "Q \<noteq> []" "hd Q = start_word" "last Q = end_word"
    "list_all (\<lambda>w. w |\<in>| word_list g) Q" "successively differ_by_one Q"
    by (simp_all add: valid_ladder_def)
  from ladder_within[OF assms(1) Q(1,2,4,5)] Q(3)
  have "end_word \<in> within g start_word (length Q - 1)" by simp
  with bfs_loop_level[OF run inv, of "length Q - 1"] have "\<not> Suc (length Q - 1) < length P"
    by blast
  with Q(1) show ?thesis by (cases Q) simp_all
qed

theorem find_shortest_path_shortest_witness:
  "lowercase_words (word_ladder_init [''cat'', ''cot'', ''cog'', ''dog'', ''dot'']) \<and>
   find_shortest_path (word_ladder_init [''cat'', ''cot'', ''cog'', ''dog'', ''dot'']) ''cat'' ''dog''
     = Some [''cat'', ''cot'', ''dot'', ''dog''] \<and>
   valid_ladder (word_ladder_init [''cat'', ''cot'', ''cog'', ''dog'', ''dot'']) ''cat'' ''dog''
     [''cat'', ''cot'', ''cog'', ''dog''] \<and>
   length [''cat'', ''cot'', ''dot'', ''dog''] \<le> length [''cat'', ''cot'', ''cog'', ''dog'']"
proof -
  let ?g = "word_ladder_init [''cat'', ''cot'', ''cog'', ''dog'', ''dot'']"
  have low: "lowercase_words ?g"
    by (simp add: lowercase_words_def word_ladder_init_def alphabet_def)
  have run: "find_shortest_path ?g ''cat'' ''dog'' = Some [''cat'', ''cot'', ''dot'', ''dog'']"
    by code_simp
  have val: "valid_ladder ?g ''cat'' ''dog'' [''cat'', ''cot'', ''cog'', ''dog'']"
    by (simp add: valid_ladder_def differ_by_one_def word_ladder_init_def)
  from find_shortest_path_shortest[OF low run val] low run val show ?thesis by simp
qed

section \<open>Maze solving: class MazeSolverDFS\<close>

text \<open>
  Exceptions of the Python program are values. \<open>RecursionError\<close> is what the interpreter
  raises when the nesting of calls exceeds its recursion limit; the recursive searches
  below take the remaining number of nested calls as their first argument.
\<close>

datatype error = IndexError | RecursionError | ZeroDivisionError | ValueError

text \<open>
  Reading and writing \<open>grid[r][c]\<close> at indices already known to be non-negative: out of
  range, Python raises IndexError.
\<close>

definition cell_at :: "'a list list \<Rightarrow> nat \<Rightarrow> nat \<Rightarrow> error + 'a" where
  "cell_at grid r c =
     (if r < length grid \<and> c < length (grid ! r) then Inr (grid ! r ! c) else Inl IndexError)"

definition set_cell_at :: "'a list list \<Rightarrow> nat \<Rightarrow> nat \<Rightarrow> 'a \<Rightarrow> error + 'a list list" where
  "set_cell_at grid r c x =
     (if r < length grid \<and> c < length (grid ! r) then Inr (grid[r := (grid ! r)[c := x]])
      else Inl IndexError)"

record maze_solver =
  maze :: "char list list"
  rows :: nat
  cols :: nat
  visited :: "bool list list"
  directions :: "(int \<times> int) list"
  path :: "(int \<times> int) list"

definition maze_solver_init :: "char list list \<Rightarrow> error + maze_solver" where
  "maze_solver_init m =
     (case m of
        [] \<Rightarrow> Inl IndexError
      | row0 # _ \<Rightarrow>
          Inr \<lparr>maze = m, rows = length m, cols = length row0,
               visited = replicate (length m) (replicate (length row0) False),
               directions = [(0, 1), (0, -1), (1, 0), (-1, 0)],
               path = []\<rparr>)"

definition maze_solver_is_valid_move :: "maze_solver \<Rightarrow> int \<Rightarrow> int \<Rightarrow> error + bool" where
  "maze_solver_is_valid_move s row col =
     (if 0 \<le> row \<and> row < int (rows s) \<and> 0 \<le> col \<and> col < int (cols s) then
        (case cell_at (visited s) (nat row) (nat col) of
           Inl e \<Rightarrow> Inl e
         | Inr True \<Rightarrow> Inr False
         | Inr False \<Rightarrow>
             (case cell_at (maze s) (nat row) (nat col) of
                Inl e \<Rightarrow> Inl e
              | Inr ch \<Rightarrow> Inr (ch \<noteq> CHR ''#'')))
      else Inr False)"

fun maze_solver_dfs :: "nat \<Rightarrow> maze_solver \<Rightarrow> int \<Rightarrow> int \<Rightarrow> error + (bool \<times> maze_solver)"
  and maze_solver_dfs_loop ::
    "nat \<Rightarrow> maze_solver \<Rightarrow> int \<Rightarrow> int \<Rightarrow> (int \<times> int) list \<Rightarrow> error + (bool \<times> maze_solver)"
  where
  "maze_solver_dfs 0 s row col = Inl RecursionError"
| "maze_solver_dfs (Suc depth) s row col =
     (case maze_solver_is_valid_move s row col of
        Inl e \<Rightarrow> Inl e
      | Inr False \<Rightarrow> Inr (False, s)
      | Inr True \<Rightarrow>
          (case set_cell_at (visited s) (nat row) (nat col) True of
             Inl e \<Rightarrow> Inl e
           | Inr vis \<Rightarrow>
               (case cell_at (maze s) (nat row) (nat col) of
                  Inl e \<Rightarrow> Inl e
                | Inr ch \<Rightarrow>
                    if ch = CHR ''E''
                    then Inr (True, s\<lparr>visited := vis, path := path s @ [(row, col)]\<rparr>)
                    else
                      (case maze_solver_dfs_loop depth
                              (s\<lparr>visited := vis, path := path s @ [(row, col)]\<rparr>)
                              row col (directions s) of
                         Inl e \<Rightarrow> Inl e
                       | Inr (True, s') \<Rightarrow> Inr (True, s')
                       | Inr (False, s') \<Rightarrow>
                           if path s' = [] then Inl IndexError
                           else Inr (False, s'\<lparr>path := butlast (path s')\<rparr>)))))"
| "maze_solver_dfs_loop depth s row col [] = Inr (False, s)"
| "maze_solver_dfs_loop depth s row col ((dr, dc) # ds) =
     (case maze_solver_dfs depth s (row + dr) (col + dc) of
        Inl e \<Rightarrow> Inl e
      | Inr (True, s') \<Rightarrow> Inr (True, s')
      | Inr (False, s') \<Rightarrow> maze_solver_dfs_loop depth s' row col ds)"

text \<open>
  \<open>solve\<close>. The two messages it prints (``Invalid starting position'', ``No path found'')
  are not part of the model; both outcomes return \<open>None\<close>.
\<close>

definition maze_solver_solve ::
  "nat \<Rightarrow> maze_solver \<Rightarrow> int \<Rightarrow> int \<Rightarrow> error + ((int \<times> int) list option \<times> maze_solver)" where
  "maze_solver_solve depth s start_row start_col =
     (case maze_solver_is_valid_move s start_row start_col of
        Inl e \<Rightarrow> Inl e
      | Inr False \<Rightarrow> Inr (None, s)
      | Inr True \<Rightarrow>
          (case maze_solver_dfs depth s start_row start_col of
             Inl e \<Rightarrow> Inl e
           | Inr (True, s') \<Rightarrow> Inr (Some (path s'), s')
           | Inr (False, s') \<Rightarrow> Inr (None, s')))"


subsection \<open>Notions used to state the properties of the search\<close>

definition in_bounds :: "maze_solver \<Rightarrow> int \<times> int \<Rightarrow> bool" where
  "in_bounds s p \<longleftrightarrow> 0 \<le> fst p \<and> fst p < int (rows s) \<and> 0 \<le> snd p \<and> snd p < int (cols s)"

definition maze_cell :: "maze_solver \<Rightarrow> int \<times> int \<Rightarrow> char" where
  "maze_cell s p = maze s ! nat (fst p) ! nat (snd p)"

definition open_cell :: "maze_solver \<Rightarrow> int \<times> int \<Rightarrow> bool" where
  "open_cell s p \<longleftrightarrow> in_bounds s p \<and> maze_cell s p \<noteq> CHR ''#''"

definition is_end :: "maze_solver \<Rightarrow> int \<times> int \<Rightarrow> bool" where
  "is_end s p \<longleftrightarrow> in_bounds s p \<and> maze_cell s p = CHR ''E''"

definition cardinal_step :: "int \<times> int \<Rightarrow> int \<times> int \<Rightarrow> bool" where
  "cardinal_step p q \<longleftrightarrow> \<bar>fst p - fst q\<bar> + \<bar>snd p - snd q\<bar> = 1"

definition rectangular :: "'a list list \<Rightarrow> bool" where
  "rectangular m \<longleftrightarrow> list_all (\<lambda>row. length row = length (hd m)) m"

definition seen :: "maze_solver \<Rightarrow> (int \<times> int) set" where
  "seen s = {p. in_bounds s p \<and> visited s ! nat (fst p) ! nat (snd p)}"

definition unseen :: "maze_solver \<Rightarrow> (int \<times> int) set" where
  "unseen s = {p. in_bounds s p \<and> \<not> visited s ! nat (fst p) ! nat (snd p)}"

definition well_formed :: "maze_solver \<Rightarrow> bool" where
  "well_formed s \<longleftrightarrow>
     length (maze s) = rows s \<and> (\<forall>row \<in> set (maze s). length row = cols s) \<and>
     length (visited s) = rows s \<and> (\<forall>row \<in> set (visited s). length row = cols s) \<and>
     directions s = [(0, 1), (0, -1), (1, 0), (-1, 0)]"

definition frame :: "maze_solver \<Rightarrow> maze_solver \<Rightarrow> bool" where
  "frame s s' \<longleftrightarrow>
     maze s' = maze s \<and> rows s' = rows s \<and> cols s' = cols s \<and> directions s' = directions s \<and>
     well_formed s' \<and> seen s \<subseteq> seen s'"

definition closed_inv :: "maze_solver \<Rightarrow> bool" where
  "closed_inv s \<longleftrightarrow>
     (\<forall>v \<in> seen s. maze_cell s v \<noteq> CHR ''E'') \<and>
     (\<forall>v \<in> seen s. v \<notin> set (path s) \<longrightarrow>
        (\<forall>n. open_cell s n \<and> cardinal_step v n \<longrightarrow> n \<in> seen s))"

lemma frame_refl: "well_formed s \<Longrightarrow> frame s s"
  by (simp add: frame_def)

lemma frame_trans: "frame s s' \<Longrightarrow> frame s' s'' \<Longrightarrow> frame s s''"
  by (auto simp: frame_def)

lemma frame_path: "frame s s' \<Longrightarrow> frame s (s'\<lparr>path := p\<rparr>)"
  by (auto simp: frame_def well_formed_def seen_def in_bounds_def)

lemma frame_open: "frame s s' \<Longrightarrow> open_cell s' p = open_cell s p"
  by (simp add: frame_def open_cell_def in_bounds_def maze_cell_def)

lemma frame_end: "frame s s' \<Longrightarrow> is_end s' p = is_end s p"
  by (simp add: frame_def is_end_def in_bounds_def maze_cell_def)

lemma frame_maze_cell: "frame s s' \<Longrightarrow> maze_cell s' p = maze_cell s p"
  by (simp add: frame_def maze_cell_def)

lemma finite_bounds: "finite {p. in_bounds s p}"
proof -
  have "{p. in_bounds s p} \<subseteq> {0..<int (rows s)} \<times> {0..<int (cols s)}"
    by (auto simp: in_bounds_def)
  then show ?thesis by (rule finite_subset) simp
qed

lemma finite_unseen: "finite (unseen s)"
  by (rule finite_subset[OF _ finite_bounds[of s]]) (auto simp: unseen_def)

lemma is_valid_move_wf:
  assumes "well_formed s"
  shows "maze_solver_is_valid_move s r c = Inr (open_cell s (r, c) \<and> (r, c) \<notin> seen s)"
proof (cases "in_bounds s (r, c)")
  case False
  then show ?thesis
    by (auto simp: maze_solver_is_valid_move_def in_bounds_def open_cell_def)
next
  case True
  then have r: "nat r < rows s" and c: "nat c < cols s" by (auto simp: in_bounds_def)
  from assms r have "length (visited s ! nat r) = cols s" "length (maze s ! nat r) = cols s"
    by (auto simp: well_formed_def)
  with assms r c True show ?thesis
    by (auto simp: maze_solver_is_valid_move_def cell_at_def well_formed_def open_cell_def
        seen_def maze_cell_def in_bounds_def split: bool.splits)
qed

lemma maze_cell_at_wf:
  assumes "well_formed s" "in_bounds s (r, c)"
  shows "cell_at (maze s) (nat r) (nat c) = Inr (maze_cell s (r, c))"
proof -
  from assms(2) have r: "nat r < rows s" and c: "nat c < cols s" by (auto simp: in_bounds_def)
  from assms(1) r have "length (maze s ! nat r) = cols s" by (auto simp: well_formed_def)
  with assms r c show ?thesis by (simp add: cell_at_def well_formed_def maze_cell_def)
qed

lemma mark_visited_wf:
  assumes wf: "well_formed s" and ib: "in_bounds s (r, c)"
  shows "\<exists>vis. set_cell_at (visited s) (nat r) (nat c) True = Inr vis \<and>
           frame s (s\<lparr>visited := vis, path := p\<rparr>) \<and>
           seen (s\<lparr>visited := vis, path := p\<rparr>) = insert (r, c) (seen s) \<and>
           unseen (s\<lparr>visited := vis, path := p\<rparr>) = unseen s - {(r, c)}"
proof -
  let ?vis = "(visited s)[nat r := (visited s ! nat r)[nat c := True]]"
  let ?s = "s\<lparr>visited := ?vis, path := p\<rparr>"
  from ib have r: "nat r < rows s" and c: "nat c < cols s" and nn: "0 \<le> r" "0 \<le> c"
    by (auto simp: in_bounds_def)
  from wf r have len: "length (visited s ! nat r) = cols s" "length (visited s) = rows s"
    by (auto simp: well_formed_def)
  have run: "set_cell_at (visited s) (nat r) (nat c) True = Inr ?vis"
    using r c len by (simp add: set_cell_at_def)
  have wf': "well_formed ?s"
    using wf r len by (auto simp: well_formed_def dest!: set_update_subset_insert[THEN subsetD])
  have nth: "?vis ! nat a ! nat b = (if nat a = nat r \<and> nat b = nat c then True
      else visited s ! nat a ! nat b)" if "in_bounds s (a, b)" for a b
    using that r c len by (auto simp: in_bounds_def nth_list_update)
  have seen': "seen ?s = insert (r, c) (seen s)"
    using ib nn by (auto simp: seen_def in_bounds_def nth split: if_splits)
  have unseen': "unseen ?s = unseen s - {(r, c)}"
    using ib nn by (auto simp: unseen_def in_bounds_def nth split: if_splits)
  have "frame s ?s" using wf' seen' by (auto simp: frame_def)
  with run seen' unseen' show ?thesis by blast
qed

lemma directions_complete:
  assumes "cardinal_step p n"
  shows "\<exists>d \<in> set [(0, 1), (0, -1), (1, 0), (-1, 0)]. n = (fst p + fst d, snd p + snd d)"
proof -
  obtain a b where n: "n = (fst p + a, snd p + b)"
    by (metis add_diff_cancel_left' diff_add_cancel prod.collapse)
  with assms have "\<bar>a\<bar> + \<bar>b\<bar> = 1" by (simp add: cardinal_step_def)
  then have "(a, b) = (0, 1) \<or> (a, b) = (0, -1) \<or> (a, b) = (1, 0) \<or> (a, b) = (-1, 0)"
    by auto
  with n show ?thesis by auto
qed

lemma directions_unit:
  assumes "d \<in> set [(0, 1), (0, -1), (1, 0), (-1, 0)]"
  shows "cardinal_step p (fst p + fst d, snd p + snd d)"
  using assms by (auto simp: cardinal_step_def)


definition dfs_post :: "maze_solver \<Rightarrow> int \<times> int \<Rightarrow> bool \<Rightarrow> maze_solver \<Rightarrow> bool" where
  "dfs_post s p b s' \<longleftrightarrow>
     frame s s' \<and>
     (if b then \<exists>ext. path s' = path s @ p # ext \<and> successively cardinal_step (p # ext) \<and>
                      is_end s (last (p # ext))
      else path s' = path s \<and> (open_cell s p \<longrightarrow> p \<in> seen s') \<and>
           (closed_inv s \<longrightarrow> closed_inv s'))"

definition loop_post ::
  "maze_solver \<Rightarrow> int \<times> int \<Rightarrow> (int \<times> int) list \<Rightarrow> bool \<Rightarrow> maze_solver \<Rightarrow> bool" where
  "loop_post s p ds b s' \<longleftrightarrow>
     frame s s' \<and>
     (if b then \<exists>ext. ext \<noteq> [] \<and> path s' = path s @ ext \<and> cardinal_step p (hd ext) \<and>
                      successively cardinal_step ext \<and> is_end s (last ext)
      else path s' = path s \<and>
           (\<forall>d \<in> set ds. open_cell s (fst p + fst d, snd p + snd d) \<longrightarrow>
                           (fst p + fst d, snd p + snd d) \<in> seen s') \<and>
           (closed_inv s \<longrightarrow> closed_inv s'))"

definition dfs_ok :: "nat \<Rightarrow> bool" where
  "dfs_ok depth \<longleftrightarrow>
     (\<forall>s r c. well_formed s \<longrightarrow> card (unseen s) < depth \<longrightarrow>
        (\<exists>b s'. maze_solver_dfs depth s r c = Inr (b, s') \<and> dfs_post s (r, c) b s'))"

definition loop_ok :: "nat \<Rightarrow> bool" where
  "loop_ok depth \<longleftrightarrow>
     (\<forall>s r c ds. well_formed s \<longrightarrow> card (unseen s) < depth \<longrightarrow>
        set ds \<subseteq> set [(0, 1), (0, -1), (1, 0), (-1, 0)] \<longrightarrow>
        (\<exists>b s'. maze_solver_dfs_loop depth s r c ds = Inr (b, s') \<and> loop_post s (r, c) ds b s'))"

lemma frame_unseen: "frame s s' \<Longrightarrow> card (unseen s') \<le> card (unseen s)"
proof -
  assume f: "frame s s'"
  then have "unseen s' \<subseteq> unseen s"
    by (auto simp: frame_def unseen_def seen_def in_bounds_def)
  then show ?thesis by (simp add: card_mono finite_unseen)
qed

lemma frame_closed_inv_path:
  "closed_inv s' \<Longrightarrow> closed_inv (s'\<lparr>path := path s' @ q\<rparr>)"
  by (auto simp: closed_inv_def seen_def in_bounds_def maze_cell_def open_cell_def)

lemma loop_ok_from_dfs:
  assumes dfs: "dfs_ok depth"
  shows "loop_ok depth"
  unfolding loop_ok_def
proof (intro allI impI)
  fix s :: maze_solver and r c :: int and ds :: "(int \<times> int) list"
  assume "well_formed s" "card (unseen s) < depth"
    "set ds \<subseteq> set [(0, 1), (0, -1), (1, 0), (-1, 0)]"
  then show "\<exists>b s'. maze_solver_dfs_loop depth s r c ds = Inr (b, s') \<and> loop_post s (r, c) ds b s'"
  proof (induction ds arbitrary: s)
    case Nil
    then have "loop_post s (r, c) [] False s" by (simp add: loop_post_def frame_refl)
    then show ?case by (intro exI[of _ False] exI[of _ s]) simp
  next
    case (Cons d ds)
    obtain dr dc where d: "d = (dr, dc)" by (cases d)
    from Cons.prems have unit: "d \<in> set [(0, 1), (0, -1), (1, 0), (-1, 0)]"
      and rest: "set ds \<subseteq> set [(0, 1), (0, -1), (1, 0), (-1, 0)]" by auto
    from dfs Cons.prems(1,2) obtain b s1 where
      run1: "maze_solver_dfs depth s (r + dr) (c + dc) = Inr (b, s1)"
      and post1: "dfs_post s (r + dr, c + dc) b s1"
      unfolding dfs_ok_def by blast
    from post1 have f1: "frame s s1" by (simp add: dfs_post_def)
    have step: "cardinal_step (r, c) (r + dr, c + dc)"
      using directions_unit[OF unit, of "(r, c)"] d by simp
    show ?case
    proof (cases b)
      case True
      with post1 obtain ext where ext: "path s1 = path s @ (r + dr, c + dc) # ext"
        "successively cardinal_step ((r + dr, c + dc) # ext)"
        "is_end s (last ((r + dr, c + dc) # ext))"
        by (auto simp: dfs_post_def)
      have "loop_post s (r, c) (d # ds) True s1"
        unfolding loop_post_def using f1 ext step
        by (auto intro!: exI[of _ "(r + dr, c + dc) # ext"])
      with run1 True d show ?thesis by auto
    next
      case False
      with post1 have p1: "path s1 = path s" "open_cell s (r + dr, c + dc) \<longrightarrow> (r + dr, c + dc) \<in> seen s1"
        "closed_inv s \<longrightarrow> closed_inv s1"
        by (simp_all add: dfs_post_def)
      from f1 have wf1: "well_formed s1" by (simp add: frame_def)
      from frame_unseen[OF f1] Cons.prems(2) have card1: "card (unseen s1) < depth" by simp
      from Cons.IH[OF wf1 card1 rest] obtain b2 s2 where
        run2: "maze_solver_dfs_loop depth s1 r c ds = Inr (b2, s2)"
        and post2: "loop_post s1 (r, c) ds b2 s2" by blast
      from post2 have f2: "frame s1 s2" by (simp add: loop_post_def)
      have run: "maze_solver_dfs_loop depth s r c (d # ds) = Inr (b2, s2)"
        using run1 run2 False d by simp
      have "loop_post s (r, c) (d # ds) b2 s2"
      proof (cases b2)
        case True
        with post2 p1(1) frame_end[OF f1] frame_trans[OF f1 f2] show ?thesis
          by (auto simp: loop_post_def)
      next
        case b2: False
        from f2 have sub: "seen s1 \<subseteq> seen s2" by (simp add: frame_def)
        from post2 b2 have p2: "path s2 = path s1"
          "\<forall>d \<in> set ds. open_cell s1 (r + fst d, c + snd d) \<longrightarrow> (r + fst d, c + snd d) \<in> seen s2"
          "closed_inv s1 \<longrightarrow> closed_inv s2"
          by (simp_all add: loop_post_def)
        show ?thesis
          unfolding loop_post_def
          using b2 p1 p2 sub frame_trans[OF f1 f2] frame_open[OF f1] d
          by auto
      qed
      with run show ?thesis by blast
    qed
  qed
qed

lemma dfs_ok_step:
  assumes loop: "loop_ok depth"
  shows "dfs_ok (Suc depth)"
  unfolding dfs_ok_def
proof (intro allI impI)
  fix s :: maze_solver and r c :: int
  assume wf: "well_formed s" and card: "card (unseen s) < Suc depth"
  let ?p = "(r, c)"
  show "\<exists>b s'. maze_solver_dfs (Suc depth) s r c = Inr (b, s') \<and> dfs_post s ?p b s'"
  proof (cases "open_cell s ?p \<and> ?p \<notin> seen s")
    case False
    then have "maze_solver_is_valid_move s r c = Inr False"
      using is_valid_move_wf[OF wf, of r c] by simp
    then have "maze_solver_dfs (Suc depth) s r c = Inr (False, s)" by simp
    moreover have "dfs_post s ?p False s"
      using False wf by (auto simp: dfs_post_def frame_refl)
    ultimately show ?thesis by blast
  next
    case True
    then have ib: "in_bounds s ?p" and fresh: "?p \<in> unseen s"
      by (auto simp: open_cell_def seen_def unseen_def)
    let ?path = "path s @ [?p]"
    from mark_visited_wf[OF wf ib, of ?path] obtain vis where
      mark: "set_cell_at (visited s) (nat r) (nat c) True = Inr vis"
      and f1: "frame s (s\<lparr>visited := vis, path := ?path\<rparr>)"
      and seen1: "seen (s\<lparr>visited := vis, path := ?path\<rparr>) = insert ?p (seen s)"
      and unseen1: "unseen (s\<lparr>visited := vis, path := ?path\<rparr>) = unseen s - {?p}"
      by blast
    let ?s1 = "s\<lparr>visited := vis, path := ?path\<rparr>"
    have valid: "maze_solver_is_valid_move s r c = Inr True"
      using is_valid_move_wf[OF wf, of r c] True by simp
    have cell: "cell_at (maze s) (nat r) (nat c) = Inr (maze_cell s ?p)"
      by (rule maze_cell_at_wf[OF wf ib])
    show ?thesis
    proof (cases "maze_cell s ?p = CHR ''E''")
      case E: True
      then have "maze_solver_dfs (Suc depth) s r c = Inr (True, ?s1)"
        using valid mark cell by simp
      moreover have "dfs_post s ?p True ?s1"
        using f1 E ib by (auto simp: dfs_post_def is_end_def)
      ultimately show ?thesis by blast
    next
      case notE: False
      from f1 have wf1: "well_formed ?s1" by (simp add: frame_def)
      have "card (unseen ?s1) = card (unseen s) - 1"
        using unseen1 fresh by (simp add: finite_unseen)
      moreover have "0 < card (unseen s)"
        using fresh finite_unseen[of s] by (auto simp: card_gt_0_iff)
      ultimately have card1: "card (unseen ?s1) < depth" using card by linarith
      have dirs: "set (directions s) \<subseteq> set [(0, 1), (0, -1), (1, 0), (-1, 0)]"
        using wf by (simp add: well_formed_def)
      from loop wf1 card1 dirs obtain b s2 where
        run2: "maze_solver_dfs_loop depth ?s1 r c (directions s) = Inr (b, s2)"
        and post2: "loop_post ?s1 ?p (directions s) b s2"
        unfolding loop_ok_def by blast
      from post2 have f2: "frame ?s1 s2" by (simp add: loop_post_def)
      note f12 = frame_trans[OF f1 f2]
      show ?thesis
      proof (cases b)
        case True
        with post2 obtain ext where ext: "ext \<noteq> []" "path s2 = ?path @ ext"
          "cardinal_step ?p (hd ext)" "successively cardinal_step ext" "is_end ?s1 (last ext)"
          by (auto simp: loop_post_def)
        have run: "maze_solver_dfs (Suc depth) s r c = Inr (True, s2)"
          using valid mark cell notE run2 True by simp
        have "successively cardinal_step (?p # ext)"
          using ext(1,3,4) by (cases ext) simp_all
        moreover have "is_end s (last (?p # ext))"
          using ext(1,5) frame_end[OF f1] by simp
        ultimately have "dfs_post s ?p True s2"
          using f12 ext(2) by (auto simp: dfs_post_def)
        with run show ?thesis by blast
      next
        case False
        with post2 have p2: "path s2 = ?path"
          "\<forall>d \<in> set (directions s). open_cell ?s1 (r + fst d, c + snd d) \<longrightarrow>
              (r + fst d, c + snd d) \<in> seen s2"
          "closed_inv ?s1 \<longrightarrow> closed_inv s2"
          by (simp_all add: loop_post_def)
        let ?s3 = "s2\<lparr>path := butlast (path s2)\<rparr>"
        have run: "maze_solver_dfs (Suc depth) s r c = Inr (False, ?s3)"
          using valid mark cell notE run2 False p2(1) by simp
        have f3: "frame s ?s3" using f12 by (rule frame_path)
        have path3: "path ?s3 = path s" using p2(1) by simp
        have seen3: "seen ?s3 = seen s2" by (simp add: seen_def in_bounds_def)
        from f2 seen1 have pin: "?p \<in> seen s2" by (auto simp: frame_def)
        have closed3: "closed_inv ?s3" if cl: "closed_inv s"
        proof -
          have "closed_inv ?s1"
            unfolding closed_inv_def
          proof (intro conjI ballI impI allI)
            fix v assume "v \<in> seen ?s1"
            with seen1 cl notE frame_maze_cell[OF f1] show "maze_cell ?s1 v \<noteq> CHR ''E''"
              by (auto simp: closed_inv_def)
          next
            fix v n assume v: "v \<in> seen ?s1" "v \<notin> set (path ?s1)"
              and n: "open_cell ?s1 n \<and> cardinal_step v n"
            from v seen1 have "v \<in> seen s" "v \<notin> set (path s)" by auto
            with cl n frame_open[OF f1, of n] have "n \<in> seen s" unfolding closed_inv_def by blast
            with seen1 show "n \<in> seen ?s1" by simp
          qed
          with p2(3) have cl2: "closed_inv s2" by simp
          show ?thesis
            unfolding closed_inv_def
          proof (intro conjI ballI impI allI)
            fix v assume "v \<in> seen ?s3"
            with cl2 seen3 show "maze_cell ?s3 v \<noteq> CHR ''E''"
              by (auto simp: closed_inv_def maze_cell_def)
          next
            fix v n assume v: "v \<in> seen ?s3" "v \<notin> set (path ?s3)"
              and n: "open_cell ?s3 n \<and> cardinal_step v n"
            from n frame_open[OF f3] frame_open[OF f1] have on: "open_cell ?s1 n" "open_cell s2 n"
              using frame_open[OF f12] by simp_all
            show "n \<in> seen ?s3"
            proof (cases "v = ?p")
              case True
              from wf have dirs_eq: "directions s = [(0, 1), (0, -1), (1, 0), (-1, 0)]"
                by (simp add: well_formed_def)
              from n True have "cardinal_step ?p n" by simp
              from directions_complete[OF this] obtain d where
                d: "d \<in> set [(0, 1), (0, -1), (1, 0), (-1, 0)]"
                   "n = (fst ?p + fst d, snd ?p + snd d)" by blast
              from d(1) have din: "d \<in> set (directions s)" by (simp only: dirs_eq)
              from d(2) have neq: "n = (r + fst d, c + snd d)" by (simp only: fst_conv snd_conv)
              from p2(2) din on(1) have "(r + fst d, c + snd d) \<in> seen s2"
                unfolding neq by blast
              then show ?thesis unfolding neq seen3 .
            next
              case False
              with v path3 p2(1) seen3 have "v \<in> seen s2" "v \<notin> set (path s2)" by auto
              with cl2 on(2) n show ?thesis unfolding closed_inv_def seen3 by blast
            qed
          qed
        qed
        have "dfs_post s ?p False ?s3"
          using f3 path3 pin seen3 closed3 by (auto simp: dfs_post_def)
        with run show ?thesis by blast
      qed
    qed
  qed
qed

lemma dfs_ok_all: "dfs_ok depth"
proof (induction depth)
  case 0
  show ?case unfolding dfs_ok_def by blast
next
  case (Suc depth)
  from dfs_ok_step[OF loop_ok_from_dfs[OF Suc]] show ?case .
qed


lemma init_fields:
  assumes "maze_solver_init m = Inr s"
  shows "maze s = m" "rows s = length m" "cols s = length (hd m)" "path s = []"
    "visited s = replicate (length m) (replicate (length (hd m)) False)"
    "directions s = [(0, 1), (0, -1), (1, 0), (-1, 0)]" "m \<noteq> []"
  using assms by (auto simp: maze_solver_init_def split: list.splits)

lemma init_unvisited:
  assumes "maze_solver_init m = Inr s" "in_bounds s (r, c)"
  shows "cell_at (visited s) (nat r) (nat c) = Inr False"
  using assms(2) unfolding init_fields(5)[OF assms(1)] cell_at_def in_bounds_def
    init_fields(2,3)[OF assms(1)]
  by auto

lemma init_seen: "maze_solver_init m = Inr s \<Longrightarrow> seen s = {}"
  unfolding seen_def in_bounds_def
  by (auto simp: init_fields(2,3,5))

lemma init_well_formed:
  assumes "maze_solver_init m = Inr s" "rectangular m"
  shows "well_formed s"
proof -
  note f = init_fields[OF assms(1)]
  have rect: "\<forall>row \<in> set m. length row = length (hd m)"
    using assms(2) unfolding rectangular_def list_all_iff .
  have a: "length (maze s) = rows s" by (simp only: f(1,2))
  have b: "\<forall>row \<in> set (maze s). length row = cols s" unfolding f(1) f(3) by (rule rect)
  have c: "length (visited s) = rows s" by (simp only: f(2,5) length_replicate)
  have d: "\<forall>row \<in> set (visited s). length row = cols s"
    unfolding f(3) f(5) by (auto simp del: replicate.simps)
  show ?thesis unfolding well_formed_def using a b c d f(6) by blast
qed

lemma card_unseen: "card (unseen s) \<le> rows s * cols s"
proof -
  have "unseen s \<subseteq> {0..<int (rows s)} \<times> {0..<int (cols s)}"
    by (auto simp: unseen_def in_bounds_def)
  then have "card (unseen s) \<le> card ({0..<int (rows s)} \<times> {0..<int (cols s)})"
    by (intro card_mono) simp_all
  then show ?thesis by (simp add: card_cartesian_product)
qed

lemma closed_reach:
  assumes cl: "closed_inv s" and empty: "path s = []"
  shows "Q \<noteq> [] \<Longrightarrow> hd Q \<in> seen s \<Longrightarrow> list_all (open_cell s) Q \<Longrightarrow>
     successively cardinal_step Q \<Longrightarrow> last Q \<in> seen s"
proof (induction Q rule: rev_induct)
  case Nil
  then show ?case by simp
next
  case (snoc x Q)
  show ?case
  proof (cases "Q = []")
    case True
    with snoc.prems show ?thesis by simp
  next
    case False
    with snoc.prems have "hd Q \<in> seen s" "list_all (open_cell s) Q" "successively cardinal_step Q"
      "cardinal_step (last Q) x" "open_cell s x"
      by (simp_all add: successively_append_iff)
    from snoc.IH[OF False this(1,2,3)] have "last Q \<in> seen s" .
    with cl empty \<open>cardinal_step (last Q) x\<close> \<open>open_cell s x\<close> have "x \<in> seen s"
      unfolding closed_inv_def by (metis empty_iff empty_set)
    then show ?thesis by simp
  qed
qed

text \<open>
  C5. For every maze grid and every start coordinate that is out of bounds or refers to a
  wall cell, \<open>solve\<close> returns \<open>None\<close> at once: it returns for every recursion budget, the
  budget zero included, at which the first call of \<open>dfs\<close> would already raise, so no search
  step runs; the solver's state is the one the constructor built, with an empty path and
  no visited cell.
\<close>

theorem maze_solver_solve_invalid_start:
  assumes init: "maze_solver_init m = Inr s"
    and bad: "\<not> in_bounds s (r, c) \<or> cell_at m (nat r) (nat c) = Inr CHR ''#''"
  shows "maze_solver_solve depth s r c = Inr (None, s) \<and> path s = [] \<and>
         list_all (list_all (\<lambda>b. \<not> b)) (visited s)"
proof -
  have "maze_solver_is_valid_move s r c = Inr False"
  proof (cases "in_bounds s (r, c)")
    case False
    then show ?thesis by (auto simp: maze_solver_is_valid_move_def in_bounds_def)
  next
    case True
    with bad have wall: "cell_at (maze s) (nat r) (nat c) = Inr CHR ''#''"
      by (simp add: init_fields(1)[OF init])
    from True init_unvisited[OF init True] wall show ?thesis
      by (simp add: maze_solver_is_valid_move_def in_bounds_def)
  qed
  then have "maze_solver_solve depth s r c = Inr (None, s)"
    by (simp add: maze_solver_solve_def)
  moreover have "list_all (list_all (\<lambda>b. \<not> b)) (visited s)"
    unfolding init_fields(5)[OF init] by (simp add: list_all_iff)
  ultimately show ?thesis using init_fields(4)[OF init] by simp
qed

theorem maze_solver_solve_invalid_start_witness:
  "maze_solver_init [''S #'', ''  E''] =
     Inr \<lparr>maze = [''S #'', ''  E''], rows = 2, cols = 3,
          visited = [[False, False, False], [False, False, False]],
          directions = [(0, 1), (0, -1), (1, 0), (-1, 0)], path = []\<rparr> \<and>
   cell_at [''S #'', ''  E''] (nat 0) (nat 2) = Inr CHR ''#'' \<and>
   maze_solver_solve 0
     \<lparr>maze = [''S #'', ''  E''], rows = 2, cols = 3,
      visited = [[False, False, False], [False, False, False]],
      directions = [(0, 1), (0, -1), (1, 0), (-1, 0)], path = []\<rparr> 0 2 =
     Inr (None, \<lparr>maze = [''S #'', ''  E''], rows = 2, cols = 3,
      visited = [[False, False, False], [False, False, False]],
      directions = [(0, 1), (0, -1), (1, 0), (-1, 0)], path = []\<rparr>)"
proof -
  let ?m = "[''S #'', ''  E'']"
  let ?s = "\<lparr>maze = ?m, rows = 2, cols = 3,
      visited = [[False, False, False], [False, False, False]],
      directions = [(0, 1), (0, -1), (1, 0), (-1, 0)], path = []\<rparr>"
  have init: "maze_solver_init ?m = Inr ?s"
    by (simp add: maze_solver_init_def numeral_2_eq_2 numeral_3_eq_3)
  have wall: "cell_at ?m (nat 0) (nat 2) = Inr CHR ''#''"
    by (simp add: cell_at_def)
  from maze_solver_solve_invalid_start[OF init disjI2, OF wall, of 0] init wall
  show ?thesis by simp
qed

text \<open>
  C6. For every rectangular maze in which an \<open>E\<close> cell is reachable from the start
  coordinate through non-wall cells by cardinal steps, \<open>solve\<close>, given a recursion budget
  above the number of cells, returns a path whose first element is the start coordinate,
  whose last element is an \<open>E\<close> cell, and in which consecutive coordinates differ by
  exactly one cardinal step.
\<close>

theorem maze_solver_solve_finds_path:
  assumes init: "maze_solver_init m = Inr s" and rect: "rectangular m"
    and Q: "Q \<noteq> []" "hd Q = (start_row, start_col)" "list_all (open_cell s) Q"
      "successively cardinal_step Q" "is_end s (last Q)"
    and depth: "rows s * cols s < depth"
  shows "\<exists>P s'. maze_solver_solve depth s start_row start_col = Inr (Some P, s') \<and>
           P \<noteq> [] \<and> hd P = (start_row, start_col) \<and> is_end s (last P) \<and>
           successively cardinal_step P"
proof -
  let ?p = "(start_row, start_col)"
  have wf: "well_formed s" by (rule init_well_formed[OF init rect])
  have seen0: "seen s = {}" by (rule init_seen[OF init])
  have path0: "path s = []" by (rule init_fields(4)[OF init])
  have cl0: "closed_inv s" by (simp add: closed_inv_def seen0)
  from card_unseen[of s] depth have card: "card (unseen s) < depth" by simp
  from Q(1,2,3) have start_open: "open_cell s ?p" by (cases Q) auto
  have valid: "maze_solver_is_valid_move s start_row start_col = Inr True"
    using is_valid_move_wf[OF wf, of start_row start_col] start_open seen0 by simp
  from dfs_ok_all[of depth] wf card obtain b s' where
    run: "maze_solver_dfs depth s start_row start_col = Inr (b, s')"
    and post: "dfs_post s ?p b s'"
    unfolding dfs_ok_def by blast
  from post have f: "frame s s'" by (simp add: dfs_post_def)
  have b
  proof (rule ccontr)
    assume nb: "\<not> b"
    with post have p: "path s' = path s" "?p \<in> seen s'" "closed_inv s'"
      using start_open cl0 by (simp_all add: dfs_post_def)
    have "list_all (open_cell s') Q" using Q(3) frame_open[OF f] by (simp add: list_all_iff)
    from closed_reach[OF p(3) _ Q(1) _ this Q(4)] p(1,2) path0 Q(2)
    have "last Q \<in> seen s'" by simp
    with p(3) have "maze_cell s' (last Q) \<noteq> CHR ''E''" by (simp add: closed_inv_def)
    with Q(5) frame_end[OF f, of "last Q"] show False by (simp add: is_end_def)
  qed
  with post path0 obtain ext where ext: "path s' = ?p # ext"
    "successively cardinal_step (?p # ext)" "is_end s (last (?p # ext))"
    by (auto simp: dfs_post_def)
  from valid run \<open>b\<close> have "maze_solver_solve depth s start_row start_col = Inr (Some (path s'), s')"
    by (simp add: maze_solver_solve_def)
  with ext show ?thesis by (intro exI[of _ "?p # ext"] exI[of _ s']) simp
qed

theorem maze_solver_solve_finds_path_witness:
  "maze_solver_init [''S #'', ''  E''] =
     Inr \<lparr>maze = [''S #'', ''  E''], rows = 2, cols = 3,
          visited = [[False, False, False], [False, False, False]],
          directions = [(0, 1), (0, -1), (1, 0), (-1, 0)], path = []\<rparr> \<and>
   rectangular [''S #'', ''  E''] \<and>
   (\<exists>P s'. maze_solver_solve 7
       \<lparr>maze = [''S #'', ''  E''], rows = 2, cols = 3,
        visited = [[False, False, False], [False, False, False]],
        directions = [(0, 1), (0, -1), (1, 0), (-1, 0)], path = []\<rparr> 0 0 = Inr (Some P, s') \<and>
      P \<noteq> [] \<and> hd P = (0, 0) \<and>
      is_end \<lparr>maze = [''S #'', ''  E''], rows = 2, cols = 3,
        visited = [[False, False, False], [False, False, False]],
        directions = [(0, 1), (0, -1), (1, 0), (-1, 0)], path = []\<rparr> (last P) \<and>
      successively cardinal_step P)"
proof -
  let ?m = "[''S #'', ''  E'']"
  let ?s = "\<lparr>maze = ?m, rows = 2, cols = 3,
      visited = [[False, False, False], [False, False, False]],
      directions = [(0, 1), (0, -1), (1, 0), (-1, 0)], path = []\<rparr>"
  let ?Q = "[(0, 0), (1, 0), (1, 1), (1, 2)] :: (int \<times> int) list"
  have init: "maze_solver_init ?m = Inr ?s"
    by (simp add: maze_solver_init_def numeral_2_eq_2 numeral_3_eq_3)
  have rect: "rectangular ?m" by (simp add: rectangular_def)
  have Q: "?Q \<noteq> []" "hd ?Q = (0, 0)" "list_all (open_cell ?s) ?Q"
    "successively cardinal_step ?Q" "is_end ?s (last ?Q)"
    by (simp_all add: open_cell_def in_bounds_def maze_cell_def cardinal_step_def is_end_def)
  have depth: "rows ?s * cols ?s < 7" by simp
  from maze_solver_solve_finds_path[OF init rect Q depth] init rect show ?thesis by simp
qed

section \<open>Maze generation: class MazeGenerator\<close>

text \<open>
  Python indexing with an index that may be negative: \<open>-1\<close> is the last element, and an
  index outside \<open>-n .. n-1\<close> raises IndexError.
\<close>

definition py_index :: "nat \<Rightarrow> int \<Rightarrow> error + nat" where
  "py_index n i =
     (if 0 \<le> i \<and> i < int n then Inr (nat i)
      else if - int n \<le> i \<and> i < 0 then Inr (nat (int n + i))
      else Inl IndexError)"

definition py_set_cell :: "'a list list \<Rightarrow> int \<Rightarrow> int \<Rightarrow> 'a \<Rightarrow> error + 'a list list" where
  "py_set_cell grid r c x =
     (case py_index (length grid) r of
        Inl e \<Rightarrow> Inl e
      | Inr i \<Rightarrow>
          (case py_index (length (grid ! i)) c of
             Inl e \<Rightarrow> Inl e
           | Inr j \<Rightarrow> Inr (grid[i := (grid ! i)[j := x]])))"

text \<open>
  The generator object. \<open>drawn\<close> and \<open>trace\<close> are not fields of the Python object:
  \<open>drawn\<close> counts the random numbers taken so far from the process-wide generator, and
  \<open>trace\<close> records the maze after every assignment to a cell, so that intermediate
  states of a run can be spoken about.
\<close>

record maze_generator =
  gen_rows :: nat
  gen_cols :: nat
  gen_maze :: "char list list"
  gen_directions :: "(int \<times> int) list"
  drawn :: nat
  trace :: "char list list list"

definition maze_generator_init :: "nat \<Rightarrow> nat \<Rightarrow> maze_generator" where
  "maze_generator_init nrows ncols =
     \<lparr>gen_rows = nrows, gen_cols = ncols,
      gen_maze = replicate nrows (replicate ncols CHR ''#''),
      gen_directions = [(0, 1), (0, -1), (1, 0), (-1, 0)],
      drawn = 0, trace = []\<rparr>"

definition maze_generator_is_valid_move :: "maze_generator \<Rightarrow> int \<Rightarrow> int \<Rightarrow> error + bool" where
  "maze_generator_is_valid_move g row col =
     (if 0 \<le> row \<and> row < int (gen_rows g) \<and> 0 \<le> col \<and> col < int (gen_cols g) then
        (case cell_at (gen_maze g) (nat row) (nat col) of
           Inl e \<Rightarrow> Inl e
         | Inr ch \<Rightarrow> Inr (ch = CHR ''#''))
      else Inr False)"

text \<open>The assignment \<open>self.maze[r][c] = x\<close>.\<close>

definition assign_cell :: "maze_generator \<Rightarrow> int \<Rightarrow> int \<Rightarrow> char \<Rightarrow> error + maze_generator" where
  "assign_cell g r c x =
     (case py_set_cell (gen_maze g) r c x of
        Inl e \<Rightarrow> Inl e
      | Inr m \<Rightarrow> Inr (g\<lparr>gen_maze := m, trace := trace g @ [m]\<rparr>))"

text \<open>
  \<open>random.shuffle\<close> permutes the list in place. Which permutation it is depends on the
  random source \<open>rnd\<close>, a sequence of numbers: the library swaps element \<open>i\<close>, from the
  last down to the second, with the element at a random index up to \<open>i\<close>.
\<close>

primrec shuffle_steps :: "(nat \<Rightarrow> nat) \<Rightarrow> nat \<Rightarrow> nat \<Rightarrow> 'a list \<Rightarrow> 'a list" where
  "shuffle_steps rnd pos 0 xs = xs"
| "shuffle_steps rnd pos (Suc i) xs =
     shuffle_steps rnd (Suc pos) i
       (xs[Suc i := xs ! (rnd pos mod Suc (Suc i)), rnd pos mod Suc (Suc i) := xs ! Suc i])"

definition shuffle_directions :: "(nat \<Rightarrow> nat) \<Rightarrow> maze_generator \<Rightarrow> maze_generator" where
  "shuffle_directions rnd g =
     g\<lparr>gen_directions :=
         shuffle_steps rnd (drawn g) (length (gen_directions g) - 1) (gen_directions g),
       drawn := drawn g + (length (gen_directions g) - 1)\<rparr>"

text \<open>
  The loop \<open>for dr, dc in self.directions\<close> reads the list by position, and the nested
  calls shuffle that same list in place: the loop goes on at the next position of the
  reshuffled list. The positions are those of the list when the loop starts; shuffling
  keeps its length.
\<close>

fun maze_generator_dfs ::
    "nat \<Rightarrow> (nat \<Rightarrow> nat) \<Rightarrow> maze_generator \<Rightarrow> int \<Rightarrow> int \<Rightarrow> error + maze_generator"
  and maze_generator_dfs_loop ::
    "nat \<Rightarrow> (nat \<Rightarrow> nat) \<Rightarrow> maze_generator \<Rightarrow> int \<Rightarrow> int \<Rightarrow> nat list \<Rightarrow> error + maze_generator"
  where
  "maze_generator_dfs 0 rnd g row col = Inl RecursionError"
| "maze_generator_dfs (Suc depth) rnd g row col =
     maze_generator_dfs_loop depth rnd (shuffle_directions rnd g) row col
       [0..<length (gen_directions g)]"
| "maze_generator_dfs_loop depth rnd g row col [] = Inr g"
| "maze_generator_dfs_loop depth rnd g row col (i # rest) =
     (if length (gen_directions g) \<le> i then Inr g
      else
        (case gen_directions g ! i of
           (dr, dc) \<Rightarrow>
             (case maze_generator_is_valid_move g (row + 2 * dr) (col + 2 * dc) of
                Inl e \<Rightarrow> Inl e
              | Inr False \<Rightarrow> maze_generator_dfs_loop depth rnd g row col rest
              | Inr True \<Rightarrow>
                  (case assign_cell g (row + dr) (col + dc) CHR '' '' of
                     Inl e \<Rightarrow> Inl e
                   | Inr g1 \<Rightarrow>
                       (case assign_cell g1 (row + 2 * dr) (col + 2 * dc) CHR '' '' of
                          Inl e \<Rightarrow> Inl e
                        | Inr g2 \<Rightarrow>
                            (case maze_generator_dfs depth rnd g2 (row + 2 * dr) (col + 2 * dc) of
                               Inl e \<Rightarrow> Inl e
                             | Inr g3 \<Rightarrow> maze_generator_dfs_loop depth rnd g3 row col rest))))))"

definition generate_maze ::
  "nat \<Rightarrow> (nat \<Rightarrow> nat) \<Rightarrow> maze_generator \<Rightarrow> int \<Rightarrow> int \<Rightarrow> int \<Rightarrow> int \<Rightarrow> error + maze_generator" where
  "generate_maze depth rnd g start_row start_col end_row end_col =
     (case assign_cell g start_row start_col CHR ''S'' of
        Inl e \<Rightarrow> Inl e
      | Inr g1 \<Rightarrow>
          (case assign_cell g1 end_row end_col CHR ''E'' of
             Inl e \<Rightarrow> Inl e
           | Inr g2 \<Rightarrow> maze_generator_dfs depth rnd g2 start_row start_col))"


subsection \<open>Once open, a cell stays open\<close>

definition is_open :: "char list list \<Rightarrow> nat \<Rightarrow> nat \<Rightarrow> bool" where
  "is_open m r c \<longleftrightarrow> r < length m \<and> c < length (m ! r) \<and> m ! r ! c \<noteq> CHR ''#''"

definition open_le :: "char list list \<Rightarrow> char list list \<Rightarrow> bool" where
  "open_le m m' \<longleftrightarrow> (\<forall>r c. is_open m r c \<longrightarrow> is_open m' r c)"

text \<open>
  \<open>carved g0 g\<close>: the run from \<open>g0\<close> to \<open>g\<close> made the assignments recorded in the new part
  of the trace, and from each recorded maze to the next no open cell became a wall.
\<close>

definition carved :: "maze_generator \<Rightarrow> maze_generator \<Rightarrow> bool" where
  "carved g0 g \<longleftrightarrow>
     (\<exists>new. trace g = trace g0 @ new \<and> successively open_le (gen_maze g0 # new) \<and>
            last (gen_maze g0 # new) = gen_maze g)"

lemma open_le_refl: "open_le m m"
  by (simp add: open_le_def)

lemma open_le_trans: "open_le a b \<Longrightarrow> open_le b c \<Longrightarrow> open_le a c"
  by (simp add: open_le_def)

lemma py_set_cell_open_le:
  assumes "py_set_cell m r c x = Inr m'" "x \<noteq> CHR ''#''"
  shows "open_le m m'"
proof -
  from assms(1) obtain i j where m': "m' = m[i := (m ! i)[j := x]]"
    by (auto simp: py_set_cell_def split: sum.splits)
  have "is_open m' a b" if op: "is_open m a b" for a b
  proof (cases "a = i")
    case False
    with op show ?thesis unfolding m' is_open_def by simp
  next
    case True
    with op have i: "i < length m" by (simp add: is_open_def)
    then have row: "m' ! a = (m ! i)[j := x]" unfolding m' using True by simp
    from op True have b: "b < length (m ! i)" "m ! i ! b \<noteq> CHR ''#''"
      by (simp_all add: is_open_def)
    then have "(m ! i)[j := x] ! b \<noteq> CHR ''#''"
      using assms(2) by (cases "b = j") simp_all
    with op b row show ?thesis unfolding is_open_def m' by simp
  qed
  then show ?thesis by (simp add: open_le_def)
qed

lemma carved_refl: "carved g g"
  unfolding carved_def by (intro exI[of _ "[]"]) simp

lemma carved_assign:
  assumes c: "carved g0 g" and a: "assign_cell g r c x = Inr g'" and x: "x \<noteq> CHR ''#''"
  shows "carved g0 g'"
proof -
  from a obtain m where set: "py_set_cell (gen_maze g) r c x = Inr m"
    and g': "g' = g\<lparr>gen_maze := m, trace := trace g @ [m]\<rparr>"
    by (auto simp: assign_cell_def split: sum.splits)
  from c obtain new where new: "trace g = trace g0 @ new"
    "successively open_le (gen_maze g0 # new)" "last (gen_maze g0 # new) = gen_maze g"
    unfolding carved_def by blast
  have le: "open_le (gen_maze g) m" by (rule py_set_cell_open_le[OF set x])
  have "open_le (last (gen_maze g0 # new)) m" unfolding new(3) by (rule le)
  then have "successively open_le ((gen_maze g0 # new) @ [m])"
    unfolding successively_append_iff using new(2) by simp
  then have "successively open_le (gen_maze g0 # (new @ [m]))" by simp
  moreover have "trace g' = trace g0 @ (new @ [m])" using g' new(1) by simp
  moreover have "last (gen_maze g0 # (new @ [m])) = gen_maze g'" using g' by simp
  ultimately show ?thesis unfolding carved_def by blast
qed

lemma carved_shuffle: "carved g0 g \<Longrightarrow> carved g0 (shuffle_directions rnd g)"
  by (simp add: carved_def shuffle_directions_def)

lemma maze_generator_dfs_carved:
  "carved g0 g \<Longrightarrow> maze_generator_dfs depth rnd g row col = Inr g' \<Longrightarrow> carved g0 g'"
  "carved g0 g \<Longrightarrow> maze_generator_dfs_loop depth rnd g row col idxs = Inr g' \<Longrightarrow> carved g0 g'"
proof (induction depth rnd g row col and depth rnd g row col idxs
    arbitrary: g' and g' rule: maze_generator_dfs_maze_generator_dfs_loop.induct)
  case (1 rnd g row col)
  then show ?case by simp
next
  case (2 depth rnd g row col)
  from "2.prems"(2) have
    "maze_generator_dfs_loop depth rnd (shuffle_directions rnd g) row col
       [0..<length (gen_directions g)] = Inr g'" by simp
  from "2.IH"[OF carved_shuffle[OF "2.prems"(1)] this] show ?case .
next
  case (3 depth rnd g row col)
  then show ?case by simp
next
  case (4 depth rnd g row col i rest)
  show ?case
  proof (cases "length (gen_directions g) \<le> i")
    case True
    with "4.prems" show ?thesis by simp
  next
    case False
    obtain dr dc where d: "gen_directions g ! i = (dr, dc)" by (cases "gen_directions g ! i")
    show ?thesis
    proof (cases "maze_generator_is_valid_move g (row + 2 * dr) (col + 2 * dc)")
      case (Inl e)
      with "4.prems"(2) False d show ?thesis by simp
    next
      case (Inr ok)
      show ?thesis
      proof (cases ok)
        case no: False
        with "4.prems"(2) False d Inr
        have "maze_generator_dfs_loop depth rnd g row col rest = Inr g'" by simp
        moreover from no have "ok = False" by simp
        ultimately show ?thesis
          using "4.IH"(3)[OF False d[symmetric] Inr _ "4.prems"(1)] by blast
      next
        case yes: True
        from "4.prems"(2) False d Inr yes obtain g1 g2 g3 where
          a1: "assign_cell g (row + dr) (col + dc) CHR '' '' = Inr g1"
          and a2: "assign_cell g1 (row + 2 * dr) (col + 2 * dc) CHR '' '' = Inr g2"
          and rec: "maze_generator_dfs depth rnd g2 (row + 2 * dr) (col + 2 * dc) = Inr g3"
          and rest: "maze_generator_dfs_loop depth rnd g3 row col rest = Inr g'"
          by (auto split: sum.splits)
        from yes have ok: "ok = True" by simp
        have c1: "carved g0 g1" by (rule carved_assign[OF "4.prems"(1) a1]) simp
        have c2: "carved g0 g2" by (rule carved_assign[OF c1 a2]) simp
        from "4.IH"(1)[OF False d[symmetric] Inr ok a1 a2 c2 rec] have c3: "carved g0 g3" .
        from "4.IH"(2)[OF False d[symmetric] Inr ok a1 a2 rec c3 rest] show ?thesis .
      qed
    qed
  qed
qed

lemma generate_maze_carved:
  assumes "generate_maze depth rnd g start_row start_col end_row end_col = Inr g'"
  shows "carved g g'"
proof -
  from assms obtain g1 g2 where
    a1: "assign_cell g start_row start_col CHR ''S'' = Inr g1"
    and a2: "assign_cell g1 end_row end_col CHR ''E'' = Inr g2"
    and run: "maze_generator_dfs depth rnd g2 start_row start_col = Inr g'"
    by (auto simp: generate_maze_def split: sum.splits)
  have c1: "carved g g1" by (rule carved_assign[OF carved_refl a1]) simp
  have c2: "carved g g2" by (rule carved_assign[OF c1 a2]) simp
  from maze_generator_dfs_carved(1)[OF c2 run] show ?thesis .
qed

lemma successively_open_le_nth:
  assumes "successively open_le T" "i \<le> j" "j < length T"
  shows "open_le (T ! i) (T ! j)"
  using assms(2,3)
proof (induction j)
  case 0
  then show ?case by (simp add: open_le_refl)
next
  case (Suc j)
  show ?case
  proof (cases "i = Suc j")
    case True
    then show ?thesis by (simp add: open_le_refl)
  next
    case False
    with Suc.prems have "i \<le> j" "j < length T" by simp_all
    from Suc.IH[OF this] have "open_le (T ! i) (T ! j)" .
    moreover have "open_le (T ! j) (T ! Suc j)"
      using assms(1) Suc.prems(2) by (simp add: successively_conv_nth)
    ultimately show ?thesis by (rule open_le_trans)
  qed
qed

text \<open>
  C7 (amended). During maze generation no cell that is open (not a wall) is ever turned
  into a wall: in the sequence of mazes that a run of \<open>generate_maze\<close> goes through, from
  the maze it was given on, past the marking of start and end and every assignment of the
  carving recursion, a cell open in one maze is open in every later one, and the last of
  them is the generated maze.
\<close>

theorem generate_maze_open_stays_open:
  assumes run: "generate_maze depth rnd g start_row start_col end_row end_col = Inr g'"
  shows "\<exists>new. trace g' = trace g @ new \<and> last (gen_maze g # new) = gen_maze g' \<and>
           (\<forall>i j. i \<le> j \<longrightarrow> j < length (gen_maze g # new) \<longrightarrow>
              open_le ((gen_maze g # new) ! i) ((gen_maze g # new) ! j))"
proof -
  from generate_maze_carved[OF run] obtain new where new: "trace g' = trace g @ new"
    "successively open_le (gen_maze g # new)" "last (gen_maze g # new) = gen_maze g'"
    unfolding carved_def by blast
  from successively_open_le_nth[OF new(2)] new(1,3) show ?thesis by blast
qed


lemma generate_maze_small_run:
  "generate_maze 5 (\<lambda>_. 0) (maze_generator_init 1 3) 0 0 0 1 =
     Inr \<lparr>gen_rows = 1, gen_cols = 3, gen_maze = [''S  ''],
          gen_directions = [(1, 0), (- 1, 0), (0, 1), (0, - 1)], drawn = 6,
          trace = [[''S##''], [''SE#''], [''S #''], [''S  '']]\<rparr>"
  by code_simp

theorem generate_maze_open_stays_open_witness:
  "generate_maze 5 (\<lambda>_. 0) (maze_generator_init 1 3) 0 0 0 1 =
     Inr \<lparr>gen_rows = 1, gen_cols = 3, gen_maze = [''S  ''],
          gen_directions = [(1, 0), (- 1, 0), (0, 1), (0, - 1)], drawn = 6,
          trace = [[''S##''], [''SE#''], [''S #''], [''S  '']]\<rparr> \<and>
   (\<exists>new. [[''S##''], [''SE#''], [''S #''], [''S  '']] = trace (maze_generator_init 1 3) @ new \<and>
      last (gen_maze (maze_generator_init 1 3) # new) = [''S  ''] \<and>
      (\<forall>i j. i \<le> j \<longrightarrow> j < length (gen_maze (maze_generator_init 1 3) # new) \<longrightarrow>
         open_le ((gen_maze (maze_generator_init 1 3) # new) ! i)
                 ((gen_maze (maze_generator_init 1 3) # new) ! j)))"
  using generate_maze_open_stays_open[OF generate_maze_small_run] generate_maze_small_run
  by simp

text \<open>
  C7 as stated says more: that every step of the carving recursion changes wall cells
  only. \<open>wall_to_open\<close> says so of two successive mazes. The recursion opens the cell
  between two lattice cells without looking at it, and in the run below that cell holds
  the end marker: the step from \<open>SE#\<close> to \<open>S #\<close> changes a cell that is not a wall.
\<close>

definition wall_to_open :: "char list list \<Rightarrow> char list list \<Rightarrow> bool" where
  "wall_to_open m m' \<longleftrightarrow>
     list_all2 (list_all2 (\<lambda>a b. a = b \<or> (a = CHR ''#'' \<and> b \<noteq> CHR ''#''))) m m'"

theorem generate_maze_wall_to_open_counterexample:
  "map_sum id trace (generate_maze 5 (\<lambda>_. 0) (maze_generator_init 1 3) 0 0 0 1) =
     Inr [[''S##''], [''SE#''], [''S #''], [''S  '']] \<and>
   \<not> wall_to_open [''SE#''] [''S #'']"
  using generate_maze_small_run by (simp add: wall_to_open_def)

section \<open>Sudoku: classes SudokuGenerator and SudokuSolverDFS\<close>

text \<open>
  A Python board is a list of row objects, and the program both mutates rows in place and
  copies them (\<open>[row[:] for row in board]\<close>). The rows therefore live in a store, a list
  of rows addressed by position, and a board is the list of the addresses of its rows.
  The outer list of a board is never assigned to. A new row is allocated at the end of
  the store. An address outside the store cannot arise in Python; reading through one is
  treated like an index out of range.
\<close>

type_synonym store = "int list list"
type_synonym board_ref = "nat list"

definition read_cell :: "store \<Rightarrow> board_ref \<Rightarrow> nat \<Rightarrow> nat \<Rightarrow> error + int" where
  "read_cell h b row col =
     (if row < length b \<and> b ! row < length h \<and> col < length (h ! (b ! row))
      then Inr (h ! (b ! row) ! col) else Inl IndexError)"

definition write_cell :: "store \<Rightarrow> board_ref \<Rightarrow> nat \<Rightarrow> nat \<Rightarrow> int \<Rightarrow> error + store" where
  "write_cell h b row col x =
     (if row < length b \<and> b ! row < length h \<and> col < length (h ! (b ! row))
      then Inr (h[b ! row := (h ! (b ! row))[col := x]]) else Inl IndexError)"

text \<open>The board as a value: the rows its addresses point to.\<close>

definition grid_of :: "store \<Rightarrow> board_ref \<Rightarrow> int list list" where
  "grid_of h b = map (\<lambda>a. h ! a) b"

text \<open>
  \<open>int(size ** 0.5)\<close>: the integer part of the square root. (The program computes it in
  floating point, which is exact for the grid sizes a board can have.)
\<close>

primrec int_sqrt :: "nat \<Rightarrow> nat" where
  "int_sqrt 0 = 0"
| "int_sqrt (Suc n) =
     (if Suc (int_sqrt n) * Suc (int_sqrt n) \<le> Suc n then Suc (int_sqrt n) else int_sqrt n)"

record sudoku_generator =
  sudoku_size :: nat
  sudoku_box_size :: nat

definition sudoku_generator_init :: "nat \<Rightarrow> sudoku_generator" where
  "sudoku_generator_init n = \<lparr>sudoku_size = n, sudoku_box_size = int_sqrt n\<rparr>"

record sudoku_solver =
  board :: board_ref
  board_size :: nat
  board_box_size :: nat
  num_solutions :: nat

definition sudoku_solver_init :: "board_ref \<Rightarrow> sudoku_solver" where
  "sudoku_solver_init b =
     \<lparr>board = b, board_size = length b, board_box_size = int_sqrt (length b),
      num_solutions = 0\<rparr>"

subsection \<open>is_valid_move\<close>

text \<open>
  The first loop of \<open>is_valid_move\<close>: \<open>board[row][i] == num or board[i][col] == num\<close> for
  \<open>i\<close> in the range; the result says whether the number was met.
\<close>

fun row_col_clash ::
  "store \<Rightarrow> board_ref \<Rightarrow> nat \<Rightarrow> nat \<Rightarrow> int \<Rightarrow> nat list \<Rightarrow> error + bool" where
  "row_col_clash h b row col num [] = Inr False"
| "row_col_clash h b row col num (i # rest) =
     (case read_cell h b row i of
        Inl e \<Rightarrow> Inl e
      | Inr x \<Rightarrow>
          if x = num then Inr True
          else
            (case read_cell h b i col of
               Inl e \<Rightarrow> Inl e
             | Inr y \<Rightarrow> if y = num then Inr True else row_col_clash h b row col num rest))"

text \<open>The nested loops over the sub-box, \<open>i\<close> outer and \<open>j\<close> inner.\<close>

fun box_clash ::
  "store \<Rightarrow> board_ref \<Rightarrow> nat \<Rightarrow> nat \<Rightarrow> int \<Rightarrow> (nat \<times> nat) list \<Rightarrow> error + bool" where
  "box_clash h b start_row start_col num [] = Inr False"
| "box_clash h b start_row start_col num ((i, j) # rest) =
     (case read_cell h b (start_row + i) (start_col + j) of
        Inl e \<Rightarrow> Inl e
      | Inr x \<Rightarrow> if x = num then Inr True else box_clash h b start_row start_col num rest)"

text \<open>
  The body shared, word for word, by \<open>SudokuGenerator.is_valid_move\<close> and
  \<open>SudokuSolverDFS.is_valid_move\<close>.
\<close>

definition is_valid_move ::
  "nat \<Rightarrow> nat \<Rightarrow> store \<Rightarrow> board_ref \<Rightarrow> nat \<Rightarrow> nat \<Rightarrow> int \<Rightarrow> error + bool" where
  "is_valid_move sz bs h b row col num =
     (case row_col_clash h b row col num [0..<sz] of
        Inl e \<Rightarrow> Inl e
      | Inr True \<Rightarrow> Inr False
      | Inr False \<Rightarrow>
          if bs = 0 then Inl ZeroDivisionError
          else
            (case box_clash h b (row - row mod bs) (col - col mod bs) num
                    (List.product [0..<bs] [0..<bs]) of
               Inl e \<Rightarrow> Inl e
             | Inr clash \<Rightarrow> Inr (\<not> clash)))"

definition sudoku_generator_is_valid_move ::
  "sudoku_generator \<Rightarrow> store \<Rightarrow> board_ref \<Rightarrow> nat \<Rightarrow> nat \<Rightarrow> int \<Rightarrow> error + bool" where
  "sudoku_generator_is_valid_move g h b row col num =
     is_valid_move (sudoku_size g) (sudoku_box_size g) h b row col num"

definition sudoku_solver_is_valid_move ::
  "sudoku_solver \<Rightarrow> store \<Rightarrow> nat \<Rightarrow> nat \<Rightarrow> int \<Rightarrow> error + bool" where
  "sudoku_solver_is_valid_move s h row col num =
     is_valid_move (board_size s) (board_box_size s) h (board s) row col num"

subsection \<open>The backtracking solver of the generator\<close>

text \<open>The scan for the first empty cell, in row-major order.\<close>

fun first_empty :: "store \<Rightarrow> board_ref \<Rightarrow> (nat \<times> nat) list \<Rightarrow> error + (nat \<times> nat) option" where
  "first_empty h b [] = Inr None"
| "first_empty h b ((row, col) # cells) =
     (case read_cell h b row col of
        Inl e \<Rightarrow> Inl e
      | Inr x \<Rightarrow> if x = 0 then Inr (Some (row, col)) else first_empty h b cells)"

fun solve_board :: "nat \<Rightarrow> sudoku_generator \<Rightarrow> store \<Rightarrow> board_ref \<Rightarrow> error + (bool \<times> store)"
  and solve_board_try ::
    "nat \<Rightarrow> sudoku_generator \<Rightarrow> store \<Rightarrow> board_ref \<Rightarrow> nat \<Rightarrow> nat \<Rightarrow> int list
       \<Rightarrow> error + (bool \<times> store)"
  where
  "solve_board 0 g h b = Inl RecursionError"
| "solve_board (Suc depth) g h b =
     (case first_empty h b (List.product [0..<sudoku_size g] [0..<sudoku_size g]) of
        Inl e \<Rightarrow> Inl e
      | Inr None \<Rightarrow> Inr (True, h)
      | Inr (Some (row, col)) \<Rightarrow>
          solve_board_try depth g h b row col [1..int (sudoku_size g)])"
| "solve_board_try depth g h b row col [] = Inr (False, h)"
| "solve_board_try depth g h b row col (num # nums) =
     (case sudoku_generator_is_valid_move g h b row col num of
        Inl e \<Rightarrow> Inl e
      | Inr False \<Rightarrow> solve_board_try depth g h b row col nums
      | Inr True \<Rightarrow>
          (case write_cell h b row col num of
             Inl e \<Rightarrow> Inl e
           | Inr h1 \<Rightarrow>
               (case solve_board depth g h1 b of
                  Inl e \<Rightarrow> Inl e
                | Inr (True, h2) \<Rightarrow> Inr (True, h2)
                | Inr (False, h2) \<Rightarrow>
                    (case write_cell h2 b row col 0 of
                       Inl e \<Rightarrow> Inl e
                     | Inr h3 \<Rightarrow> solve_board_try depth g h3 b row col nums))))"

subsection \<open>SudokuSolverDFS\<close>

definition find_empty_cell :: "sudoku_solver \<Rightarrow> store \<Rightarrow> error + (nat \<times> nat) option" where
  "find_empty_cell s h =
     first_empty h (board s) (List.product [0..<board_size s] [0..<board_size s])"

fun sudoku_solver_solve ::
    "nat \<Rightarrow> sudoku_solver \<Rightarrow> store \<Rightarrow> error + (bool \<times> sudoku_solver \<times> store)"
  and sudoku_solver_solve_try ::
    "nat \<Rightarrow> sudoku_solver \<Rightarrow> store \<Rightarrow> nat \<Rightarrow> nat \<Rightarrow> int list
       \<Rightarrow> error + (bool \<times> sudoku_solver \<times> store)"
  where
  "sudoku_solver_solve 0 s h = Inl RecursionError"
| "sudoku_solver_solve (Suc depth) s h =
     (case find_empty_cell s h of
        Inl e \<Rightarrow> Inl e
      | Inr None \<Rightarrow> Inr (True, s\<lparr>num_solutions := num_solutions s + 1\<rparr>, h)
      | Inr (Some (row, col)) \<Rightarrow>
          sudoku_solver_solve_try depth s h row col [1..int (board_size s)])"
| "sudoku_solver_solve_try depth s h row col [] = Inr (False, s, h)"
| "sudoku_solver_solve_try depth s h row col (num # nums) =
     (case sudoku_solver_is_valid_move s h row col num of
        Inl e \<Rightarrow> Inl e
      | Inr False \<Rightarrow> sudoku_solver_solve_try depth s h row col nums
      | Inr True \<Rightarrow>
          (case write_cell h (board s) row col num of
             Inl e \<Rightarrow> Inl e
           | Inr h1 \<Rightarrow>
               (case sudoku_solver_solve depth s h1 of
                  Inl e \<Rightarrow> Inl e
                | Inr (True, s2, h2) \<Rightarrow> Inr (True, s2, h2)
                | Inr (False, s2, h2) \<Rightarrow>
                    (case write_cell h2 (board s2) row col 0 of
                       Inl e \<Rightarrow> Inl e
                     | Inr h3 \<Rightarrow> sudoku_solver_solve_try depth s2 h3 row col nums))))"

subsection \<open>Puzzle generation\<close>

definition has_unique_solution :: "nat \<Rightarrow> store \<Rightarrow> board_ref \<Rightarrow> error + (bool \<times> store)" where
  "has_unique_solution depth h b =
     (case sudoku_solver_solve depth (sudoku_solver_init b) h of
        Inl e \<Rightarrow> Inl e
      | Inr (_, solver, h') \<Rightarrow> Inr (num_solutions solver = 1, h'))"

text \<open>\<open>[row[:] for row in board]\<close>: every row is copied into a new row object.\<close>

definition copy_board :: "store \<Rightarrow> board_ref \<Rightarrow> error + (board_ref \<times> store)" where
  "copy_board h b =
     (if list_all (\<lambda>a. a < length h) b
      then Inr ([length h..<length h + length b], h @ map (\<lambda>a. h ! a) b)
      else Inl IndexError)"

text \<open>
  \<open>random.randint(0, n - 1)\<close>, from the random source \<open>rnd\<close> at position \<open>pos\<close>; an empty
  range raises ValueError.
\<close>

definition randint0 :: "(nat \<Rightarrow> nat) \<Rightarrow> nat \<Rightarrow> nat \<Rightarrow> error + nat" where
  "randint0 rnd pos n = (if n = 0 then Inl ValueError else Inr (rnd pos mod n))"

text \<open>
  The loop \<open>while board[row][col] == 0\<close> draws again until it meets a filled cell. It
  need not end: not returning is the value \<open>None\<close>.
\<close>

partial_function (option) resample ::
  "(nat \<Rightarrow> nat) \<Rightarrow> nat \<Rightarrow> store \<Rightarrow> board_ref \<Rightarrow> nat \<Rightarrow> nat \<Rightarrow> nat
     \<Rightarrow> (error + (nat \<times> nat \<times> nat)) option" where
  "resample rnd sz h b row col pos =
     (case read_cell h b row col of
        Inl e \<Rightarrow> Some (Inl e)
      | Inr x \<Rightarrow>
          if x = 0 then
            (case randint0 rnd pos sz of
               Inl e \<Rightarrow> Some (Inl e)
             | Inr row' \<Rightarrow>
                 (case randint0 rnd (pos + 1) sz of
                    Inl e \<Rightarrow> Some (Inl e)
                  | Inr col' \<Rightarrow> resample rnd sz h b row' col' (pos + 2)))
          else Some (Inr (row, col, pos)))"

declare resample.simps [code]

text \<open>One iteration of the loop of \<open>remove_numbers\<close>.\<close>

definition remove_one ::
  "nat \<Rightarrow> (nat \<Rightarrow> nat) \<Rightarrow> sudoku_generator \<Rightarrow> store \<Rightarrow> board_ref \<Rightarrow> nat
     \<Rightarrow> (error + (store \<times> nat)) option" where
  "remove_one depth rnd g h b pos =
     (case randint0 rnd pos (sudoku_size g) of
        Inl e \<Rightarrow> Some (Inl e)
      | Inr row0 \<Rightarrow>
          (case randint0 rnd (pos + 1) (sudoku_size g) of
             Inl e \<Rightarrow> Some (Inl e)
           | Inr col0 \<Rightarrow>
               (case resample rnd (sudoku_size g) h b row0 col0 (pos + 2) of
                  None \<Rightarrow> None
                | Some (Inl e) \<Rightarrow> Some (Inl e)
                | Some (Inr (row, col, pos')) \<Rightarrow>
                    (case read_cell h b row col of
                       Inl e \<Rightarrow> Some (Inl e)
                     | Inr temp \<Rightarrow>
                         (case write_cell h b row col 0 of
                            Inl e \<Rightarrow> Some (Inl e)
                          | Inr h1 \<Rightarrow>
                              (case copy_board h1 b of
                                 Inl e \<Rightarrow> Some (Inl e)
                               | Inr (temp_board, h2) \<Rightarrow>
                                   (case has_unique_solution depth h2 temp_board of
                                      Inl e \<Rightarrow> Some (Inl e)
                                    | Inr (True, h3) \<Rightarrow> Some (Inr (h3, pos'))
                                    | Inr (False, h3) \<Rightarrow>
                                        (case write_cell h3 b row col temp of
                                           Inl e \<Rightarrow> Some (Inl e)
                                         | Inr h4 \<Rightarrow> Some (Inr (h4, pos'))))))))))"

fun remove_loop ::
  "nat \<Rightarrow> nat \<Rightarrow> (nat \<Rightarrow> nat) \<Rightarrow> sudoku_generator \<Rightarrow> store \<Rightarrow> board_ref \<Rightarrow> nat
     \<Rightarrow> (error + (store \<times> nat)) option" where
  "remove_loop 0 depth rnd g h b pos = Some (Inr (h, pos))"
| "remove_loop (Suc k) depth rnd g h b pos =
     (case remove_one depth rnd g h b pos of
        None \<Rightarrow> None
      | Some (Inl e) \<Rightarrow> Some (Inl e)
      | Some (Inr (h', pos')) \<Rightarrow> remove_loop k depth rnd g h' b pos')"

definition remove_numbers ::
  "nat \<Rightarrow> (nat \<Rightarrow> nat) \<Rightarrow> sudoku_generator \<Rightarrow> store \<Rightarrow> board_ref \<Rightarrow> nat
     \<Rightarrow> (error + (store \<times> nat)) option" where
  "remove_numbers depth rnd g h b pos =
     remove_loop (if sudoku_size g = 9 then 40 else 4) depth rnd g h b pos"

text \<open>
  \<open>generate_board\<close>: the new board is \<open>size\<close> new rows of \<open>size\<close> zeros. The result is the
  board and the store it lives in.
\<close>

definition generate_board ::
  "nat \<Rightarrow> (nat \<Rightarrow> nat) \<Rightarrow> sudoku_generator \<Rightarrow> store \<Rightarrow> nat
     \<Rightarrow> (error + (board_ref \<times> store \<times> nat)) option" where
  "generate_board depth rnd g h pos =
     (case solve_board depth g
             (h @ replicate (sudoku_size g) (replicate (sudoku_size g) 0))
             [length h..<length h + sudoku_size g] of
        Inl e \<Rightarrow> Some (Inl e)
      | Inr (_, h1) \<Rightarrow>
          (case remove_numbers depth rnd g h1 [length h..<length h + sudoku_size g] pos of
             None \<Rightarrow> None
           | Some (Inl e) \<Rightarrow> Some (Inl e)
           | Some (Inr (h2, pos')) \<Rightarrow>
               Some (Inr ([length h..<length h + sudoku_size g], h2, pos'))))"


subsection \<open>What a solution is\<close>

definition box_cells :: "nat \<Rightarrow> int list list \<Rightarrow> nat \<Rightarrow> nat \<Rightarrow> int list" where
  "box_cells bs grid br bc =
     concat (map (\<lambda>i. map (\<lambda>j. grid ! (br * bs + i) ! (bc * bs + j)) [0..<bs]) [0..<bs])"

definition complete_valid :: "nat \<Rightarrow> nat \<Rightarrow> int list list \<Rightarrow> bool" where
  "complete_valid sz bs grid \<longleftrightarrow>
     length grid = sz \<and>
     list_all (\<lambda>r. length r = sz \<and> list_all (\<lambda>x. 1 \<le> x \<and> x \<le> int sz) r \<and> distinct r) grid \<and>
     list_all (\<lambda>c. distinct (map (\<lambda>r. r ! c) grid)) [0..<sz] \<and>
     list_all (\<lambda>br. list_all (\<lambda>bc. distinct (box_cells bs grid br bc)) [0..<bs]) [0..<bs]"

definition fills :: "int list list \<Rightarrow> int list list \<Rightarrow> bool" where
  "fills puzzle sol \<longleftrightarrow> list_all2 (list_all2 (\<lambda>p s. p = 0 \<or> p = s)) puzzle sol"

definition solution_of :: "nat \<Rightarrow> nat \<Rightarrow> int list list \<Rightarrow> int list list \<Rightarrow> bool" where
  "solution_of sz bs puzzle sol \<longleftrightarrow> complete_valid sz bs sol \<and> fills puzzle sol"

lemma two_solutions:
  "solution_of 4 2 [[0, 0, 3, 4], [3, 4, 1, 2], [0, 0, 4, 3], [4, 3, 2, 1]]
     [[1, 2, 3, 4], [3, 4, 1, 2], [2, 1, 4, 3], [4, 3, 2, 1]]"
  "solution_of 4 2 [[0, 0, 3, 4], [3, 4, 1, 2], [0, 0, 4, 3], [4, 3, 2, 1]]
     [[2, 1, 3, 4], [3, 4, 1, 2], [1, 2, 4, 3], [4, 3, 2, 1]]"
  by code_simp+

text \<open>
  C1. The claim: \<open>has_unique_solution\<close> returns True if and only if exactly one complete
  valid assignment of the empty cells exists, the counting search going on past the first
  solution. The code does not: \<open>solve\<close> returns True at the first solution and every
  caller returns at once, so the counter never passes 1. The board below has the two
  solutions shown, and \<open>has_unique_solution\<close> returns True.
\<close>

theorem has_unique_solution_two_solutions:
  "map_sum id fst
     (has_unique_solution 1000 [[0, 0, 3, 4], [3, 4, 1, 2], [0, 0, 4, 3], [4, 3, 2, 1]] [0, 1, 2, 3])
     = Inr True \<and>
   solution_of 4 2 (grid_of [[0, 0, 3, 4], [3, 4, 1, 2], [0, 0, 4, 3], [4, 3, 2, 1]] [0, 1, 2, 3])
     [[1, 2, 3, 4], [3, 4, 1, 2], [2, 1, 4, 3], [4, 3, 2, 1]] \<and>
   solution_of 4 2 (grid_of [[0, 0, 3, 4], [3, 4, 1, 2], [0, 0, 4, 3], [4, 3, 2, 1]] [0, 1, 2, 3])
     [[2, 1, 3, 4], [3, 4, 1, 2], [1, 2, 4, 3], [4, 3, 2, 1]] \<and>
   [[1, 2, 3, 4], [3, 4, 1, 2], [2, 1, 4, 3], [4, 3, 2, 1]] \<noteq>
     [[2, 1, 3, 4], [3, 4, 1, 2], [1, 2, 4, 3], [4, 3, 2, 1 :: int]]"
proof -
  have run: "map_sum id fst
     (has_unique_solution 1000 [[0, 0, 3, 4], [3, 4, 1, 2], [0, 0, 4, 3], [4, 3, 2, 1]] [0, 1, 2, 3])
     = Inr True"
    by code_simp
  have grid: "grid_of [[0, 0, 3, 4], [3, 4, 1, 2], [0, 0, 4, 3], [4, 3, 2, 1]] [0, 1, 2, 3]
     = [[0, 0, 3, 4], [3, 4, 1, 2], [0, 0, 4, 3], [4, 3, 2, 1]]"
    by (simp add: grid_of_def)
  show ?thesis unfolding grid using run two_solutions by simp
qed

text \<open>
  C2. The claim: every board returned by \<open>generate_board\<close> has exactly one solution. With
  the random draws \<open>(0,0)\<close>, \<open>(0,1)\<close>, \<open>(2,0)\<close>, \<open>(2,1)\<close> the generator of size 4
  returns the board below, which has the two solutions shown: the guard of the fourth
  removal is the \<open>has_unique_solution\<close> of C1.
\<close>

theorem generate_board_two_solutions:
  "map_option (map_sum id (\<lambda>(b, h, p). grid_of h b))
     (generate_board 1000 (\<lambda>i. [0, 0, 0, 1, 2, 0, 2, 1] ! i) (sudoku_generator_init 4) [] 0)
     = Some (Inr [[0, 0, 3, 4], [3, 4, 1, 2], [0, 0, 4, 3], [4, 3, 2, 1]]) \<and>
   solution_of 4 2 [[0, 0, 3, 4], [3, 4, 1, 2], [0, 0, 4, 3], [4, 3, 2, 1]]
     [[1, 2, 3, 4], [3, 4, 1, 2], [2, 1, 4, 3], [4, 3, 2, 1]] \<and>
   solution_of 4 2 [[0, 0, 3, 4], [3, 4, 1, 2], [0, 0, 4, 3], [4, 3, 2, 1]]
     [[2, 1, 3, 4], [3, 4, 1, 2], [1, 2, 4, 3], [4, 3, 2, 1]] \<and>
   [[1, 2, 3, 4], [3, 4, 1, 2], [2, 1, 4, 3], [4, 3, 2, 1]] \<noteq>
     [[2, 1, 3, 4], [3, 4, 1, 2], [1, 2, 4, 3], [4, 3, 2, 1 :: int]]"
proof -
  have run: "map_option (map_sum id (\<lambda>(b, h, p). grid_of h b))
     (generate_board 1000 (\<lambda>i. [0, 0, 0, 1, 2, 0, 2, 1] ! i) (sudoku_generator_init 4) [] 0)
     = Some (Inr [[0, 0, 3, 4], [3, 4, 1, 2], [0, 0, 4, 3], [4, 3, 2, 1]])"
    by code_simp
  show ?thesis using run two_solutions by simp
qed

subsection \<open>What is_valid_move decides\<close>

definition cell :: "store \<Rightarrow> board_ref \<Rightarrow> nat \<Rightarrow> nat \<Rightarrow> int" where
  "cell h b r c = h ! (b ! r) ! c"

text \<open>A board of \<open>sz\<close> rows of \<open>sz\<close> cells each.\<close>

definition sudoku_board :: "nat \<Rightarrow> store \<Rightarrow> board_ref \<Rightarrow> bool" where
  "sudoku_board sz h b \<longleftrightarrow>
     length b = sz \<and> list_all (\<lambda>a. a < length h \<and> length (h ! a) = sz) b"

text \<open>
  The number appears elsewhere: at a cell other than \<open>(row, col)\<close> itself in the row, in
  the column, or in the sub-box with origin
  \<open>(row - row mod box_size, col - col mod box_size)\<close>.
\<close>

definition appears_elsewhere ::
  "nat \<Rightarrow> nat \<Rightarrow> store \<Rightarrow> board_ref \<Rightarrow> nat \<Rightarrow> nat \<Rightarrow> int \<Rightarrow> bool" where
  "appears_elsewhere sz bs h b row col num \<longleftrightarrow>
     list_ex (\<lambda>i. i \<noteq> col \<and> cell h b row i = num) [0..<sz] \<or>
     list_ex (\<lambda>i. i \<noteq> row \<and> cell h b i col = num) [0..<sz] \<or>
     list_ex (\<lambda>i. list_ex (\<lambda>j.
          (row - row mod bs + i, col - col mod bs + j) \<noteq> (row, col) \<and>
          cell h b (row - row mod bs + i) (col - col mod bs + j) = num) [0..<bs]) [0..<bs]"

lemma read_cell_board:
  assumes "sudoku_board sz h b" "r < sz" "c < sz"
  shows "read_cell h b r c = Inr (cell h b r c)"
proof -
  from assms(1,2) have "r < length b" "b ! r \<in> set b" by (simp_all add: sudoku_board_def)
  with assms(1) have "b ! r < length h" "length (h ! (b ! r)) = sz"
    by (simp_all add: sudoku_board_def list_all_iff)
  with \<open>r < length b\<close> assms(3) show ?thesis by (simp add: read_cell_def cell_def)
qed

lemma row_col_clash_board:
  assumes "sudoku_board sz h b" "row < sz" "col < sz"
  shows "\<forall>i \<in> set idxs. i < sz \<Longrightarrow>
     row_col_clash h b row col num idxs =
       Inr (\<exists>i \<in> set idxs. cell h b row i = num \<or> cell h b i col = num)"
proof (induction idxs)
  case Nil
  show ?case by simp
next
  case (Cons i idxs)
  then have i: "i < sz" and rest: "\<forall>i \<in> set idxs. i < sz" by simp_all
  have "read_cell h b row i = Inr (cell h b row i)" "read_cell h b i col = Inr (cell h b i col)"
    using assms i by (simp_all add: read_cell_board)
  with Cons.IH[OF rest] show ?case by auto
qed

lemma box_clash_board:
  assumes "sudoku_board sz h b"
  shows "\<forall>p \<in> set ps. sr + fst p < sz \<and> sc + snd p < sz \<Longrightarrow>
     box_clash h b sr sc num ps =
       Inr (\<exists>p \<in> set ps. cell h b (sr + fst p) (sc + snd p) = num)"
proof (induction ps)
  case Nil
  show ?case by simp
next
  case (Cons p ps)
  obtain i j where p: "p = (i, j)" by (cases p)
  from Cons.prems p have ij: "sr + i < sz" "sc + j < sz"
    and rest: "\<forall>p \<in> set ps. sr + fst p < sz \<and> sc + snd p < sz" by simp_all
  have "read_cell h b (sr + i) (sc + j) = Inr (cell h b (sr + i) (sc + j))"
    using assms ij by (simp add: read_cell_board)
  with Cons.IH[OF rest] p show ?case by auto
qed

lemma box_in_range:
  fixes bs sz r i :: nat
  assumes "bs * bs = sz" "r < sz" "i < bs"
  shows "r - r mod bs + i < sz"
proof -
  from assms have pos: "0 < bs" by (cases bs) simp_all
  have eq: "r - r mod bs = (r div bs) * bs" by (simp add: minus_mod_eq_div_mult)
  from assms(1,2) have "r div bs < bs"
    using pos by (simp add: less_mult_imp_div_less)
  then have "Suc (r div bs) * bs \<le> bs * bs" by (intro mult_le_mono1) simp
  moreover have "(r div bs) * bs + i < Suc (r div bs) * bs" using assms(3) by simp
  ultimately show ?thesis unfolding eq using assms(1) by linarith
qed

lemma ex_product_upt:
  "(\<exists>p \<in> set (List.product [0..<n] [0..<m]). P (fst p) (snd p)) = (\<exists>i<n. \<exists>j<m. P i j)"
  by force

lemma is_valid_move_board:
  assumes wf: "sudoku_board sz h b" and sq: "bs * bs = sz" and r: "row < sz" and c: "col < sz"
  shows "is_valid_move sz bs h b row col num =
           Inr (cell h b row col \<noteq> num \<and> \<not> appears_elsewhere sz bs h b row col num)"
proof -
  let ?sr = "row - row mod bs" and ?sc = "col - col mod bs"
  from sq r have pos: "0 < bs" by (cases bs) simp_all
  have rc: "row_col_clash h b row col num [0..<sz] =
      Inr (\<exists>i \<in> set [0..<sz]. cell h b row i = num \<or> cell h b i col = num)"
    by (rule row_col_clash_board[OF wf r c]) simp
  have range: "\<forall>p \<in> set (List.product [0..<bs] [0..<bs]). ?sr + fst p < sz \<and> ?sc + snd p < sz"
    using box_in_range[OF sq r] box_in_range[OF sq c] by auto
  have bx: "box_clash h b ?sr ?sc num (List.product [0..<bs] [0..<bs]) =
      Inr (\<exists>p \<in> set (List.product [0..<bs] [0..<bs]). cell h b (?sr + fst p) (?sc + snd p) = num)"
    by (rule box_clash_board[OF wf range])
  let ?line = "\<exists>i < sz. cell h b row i = num \<or> cell h b i col = num"
  let ?box = "\<exists>i < bs. \<exists>j < bs. cell h b (?sr + i) (?sc + j) = num"
  have run: "is_valid_move sz bs h b row col num = Inr (\<not> ?line \<and> \<not> ?box)"
  proof (cases ?line)
    case True
    then have "row_col_clash h b row col num [0..<sz] = Inr True" unfolding rc by auto
    with True show ?thesis by (simp add: is_valid_move_def)
  next
    case False
    then have "row_col_clash h b row col num [0..<sz] = Inr False" unfolding rc by auto
    moreover have "(\<exists>p \<in> set (List.product [0..<bs] [0..<bs]).
        cell h b (?sr + fst p) (?sc + snd p) = num) = ?box"
      by (rule ex_product_upt[of bs bs "\<lambda>i j. cell h b (?sr + i) (?sc + j) = num"])
    ultimately show ?thesis using False pos bx by (simp add: is_valid_move_def)
  qed
  have "(?line \<or> ?box) = (cell h b row col = num \<or> appears_elsewhere sz bs h b row col num)"
  proof
    assume lb: "?line \<or> ?box"
    show "cell h b row col = num \<or> appears_elsewhere sz bs h b row col num"
    proof (cases "cell h b row col = num")
      case True
      then show ?thesis by blast
    next
      case ne: False
      from lb consider i where "i < sz" "cell h b row i = num"
        | i where "i < sz" "cell h b i col = num"
        | i j where "i < bs" "j < bs" "cell h b (?sr + i) (?sc + j) = num" by blast
      then have "appears_elsewhere sz bs h b row col num"
      proof cases
        case 1
        with ne have "i \<noteq> col" by blast
        with 1 have "list_ex (\<lambda>i. i \<noteq> col \<and> cell h b row i = num) [0..<sz]"
          unfolding list_ex_iff by (intro bexI[of _ i]) simp_all
        then show ?thesis unfolding appears_elsewhere_def by blast
      next
        case 2
        with ne have "i \<noteq> row" by blast
        with 2 have "list_ex (\<lambda>i. i \<noteq> row \<and> cell h b i col = num) [0..<sz]"
          unfolding list_ex_iff by (intro bexI[of _ i]) simp_all
        then show ?thesis unfolding appears_elsewhere_def by blast
      next
        case 3
        with ne have "(?sr + i, ?sc + j) \<noteq> (row, col)" by (metis prod.inject)
        with 3 have "list_ex (\<lambda>i. list_ex (\<lambda>j. (?sr + i, ?sc + j) \<noteq> (row, col) \<and>
            cell h b (?sr + i) (?sc + j) = num) [0..<bs]) [0..<bs]"
          unfolding list_ex_iff by (intro bexI[of _ i] bexI[of _ j] conjI) simp_all
        then show ?thesis unfolding appears_elsewhere_def by blast
      qed
      then show ?thesis by blast
    qed
  next
    assume "cell h b row col = num \<or> appears_elsewhere sz bs h b row col num"
    then consider "cell h b row col = num"
      | i where "i < sz" "cell h b row i = num"
      | i where "i < sz" "cell h b i col = num"
      | i j where "i < bs" "j < bs" "cell h b (?sr + i) (?sc + j) = num"
      unfolding appears_elsewhere_def list_ex_iff by auto
    then show "?line \<or> ?box"
    proof cases
      case 1
      with c show ?thesis by blast
    qed blast+
  qed
  with run show ?thesis by auto
qed


text \<open>
  C3 (amended). For every grid of \<open>size\<close> rows of \<open>size\<close> cells, with
  \<open>size = box_size * box_size\<close>, every in-bounds coordinate \<open>(row, col)\<close> and every value,
  \<open>is_valid_move\<close> (of the generator and of the solver alike) returns True if and only if
  the cell \<open>(row, col)\<close> itself does not hold the value and the value does not appear
  elsewhere in the row, in the column, or in the sub-box with origin
  \<open>(row - row mod box_size, col - col mod box_size)\<close>.
\<close>

theorem is_valid_move_iff_not_elsewhere:
  assumes "sudoku_board sz h b" and "bs * bs = sz" and "row < sz" and "col < sz"
  shows "sudoku_generator_is_valid_move \<lparr>sudoku_size = sz, sudoku_box_size = bs\<rparr> h b row col num
           = Inr (cell h b row col \<noteq> num \<and> \<not> appears_elsewhere sz bs h b row col num) \<and>
         sudoku_solver_is_valid_move
             \<lparr>board = b, board_size = sz, board_box_size = bs, num_solutions = k\<rparr> h row col num
           = Inr (cell h b row col \<noteq> num \<and> \<not> appears_elsewhere sz bs h b row col num)"
  using is_valid_move_board[OF assms, of num]
  by (simp add: sudoku_generator_is_valid_move_def sudoku_solver_is_valid_move_def)

lemma small_board:
  "sudoku_board 4 [[0, 0, 3, 4], [3, 4, 1, 2], [0, 0, 4, 3], [4, 3, 2, 1]] [0, 1, 2, 3]"
  by code_simp

theorem is_valid_move_iff_not_elsewhere_witness:
  "sudoku_board 4 [[0, 0, 3, 4], [3, 4, 1, 2], [0, 0, 4, 3], [4, 3, 2, 1]] [0, 1, 2, 3] \<and>
   (2::nat) * 2 = 4 \<and> (0::nat) < 4 \<and> (1::nat) < 4 \<and>
   sudoku_generator_is_valid_move \<lparr>sudoku_size = 4, sudoku_box_size = 2\<rparr>
       [[0, 0, 3, 4], [3, 4, 1, 2], [0, 0, 4, 3], [4, 3, 2, 1]] [0, 1, 2, 3] 0 1 2
     = Inr (cell [[0, 0, 3, 4], [3, 4, 1, 2], [0, 0, 4, 3], [4, 3, 2, 1]] [0, 1, 2, 3] 0 1 \<noteq> 2 \<and>
            \<not> appears_elsewhere 4 2 [[0, 0, 3, 4], [3, 4, 1, 2], [0, 0, 4, 3], [4, 3, 2, 1]]
                 [0, 1, 2, 3] 0 1 2) \<and>
   sudoku_solver_is_valid_move
       \<lparr>board = [0, 1, 2, 3], board_size = 4, board_box_size = 2, num_solutions = 0\<rparr>
       [[0, 0, 3, 4], [3, 4, 1, 2], [0, 0, 4, 3], [4, 3, 2, 1]] 0 1 2
     = Inr (cell [[0, 0, 3, 4], [3, 4, 1, 2], [0, 0, 4, 3], [4, 3, 2, 1]] [0, 1, 2, 3] 0 1 \<noteq> 2 \<and>
            \<not> appears_elsewhere 4 2 [[0, 0, 3, 4], [3, 4, 1, 2], [0, 0, 4, 3], [4, 3, 2, 1]]
                 [0, 1, 2, 3] 0 1 2)"
proof -
  have sq: "(2::nat) * 2 = 4" and r: "(0::nat) < 4" and c: "(1::nat) < 4" by simp_all
  from is_valid_move_iff_not_elsewhere[OF small_board sq r c, of 2 0] small_board sq r c
  show ?thesis by blast
qed

text \<open>
  C3 as stated fails where the cell \<open>(row, col)\<close> itself holds the value: the loops of
  \<open>is_valid_move\<close> do not skip that cell. Here the 1 at \<open>(0, 0)\<close> appears nowhere else, and
  the move of 1 to \<open>(0, 0)\<close> is refused.
\<close>

theorem is_valid_move_own_cell_counterexample:
  "sudoku_generator_is_valid_move \<lparr>sudoku_size = 4, sudoku_box_size = 2\<rparr>
       [[1, 0, 0, 0], [0, 0, 0, 0], [0, 0, 0, 0], [0, 0, 0, 0]] [0, 1, 2, 3] 0 0 1 = Inr False \<and>
   \<not> appears_elsewhere 4 2 [[1, 0, 0, 0], [0, 0, 0, 0], [0, 0, 0, 0], [0, 0, 0, 0]]
        [0, 1, 2, 3] 0 0 1"
  by code_simp

subsection \<open>Solving a full grid\<close>

lemma grid_cell:
  assumes "sudoku_board sz h b" "r < sz" "c < sz"
  shows "cell h b r c \<in> set (grid_of h b ! r)" "grid_of h b ! r \<in> set (grid_of h b)"
proof -
  from assms(1,2) have rb: "r < length b" "b ! r \<in> set b" by (simp_all add: sudoku_board_def)
  with assms(1) have len: "length (h ! (b ! r)) = sz" by (simp add: sudoku_board_def list_all_iff)
  from rb have row: "grid_of h b ! r = h ! (b ! r)" by (simp add: grid_of_def)
  show "cell h b r c \<in> set (grid_of h b ! r)"
    unfolding row cell_def using len assms(3) by simp
  show "grid_of h b ! r \<in> set (grid_of h b)" using rb by (simp add: grid_of_def)
qed

lemma first_empty_full:
  assumes wf: "sudoku_board sz h b" and full: "list_all (list_all (\<lambda>x. x \<noteq> 0)) (grid_of h b)"
  shows "\<forall>p \<in> set cells. fst p < sz \<and> snd p < sz \<Longrightarrow> first_empty h b cells = Inr None"
proof (induction cells)
  case Nil
  show ?case by simp
next
  case (Cons p cells)
  obtain r c where p: "p = (r, c)" by (cases p)
  from Cons.prems p have rc: "r < sz" "c < sz"
    and rest: "\<forall>p \<in> set cells. fst p < sz \<and> snd p < sz" by simp_all
  from grid_cell[OF wf rc] full have "cell h b r c \<noteq> 0" by (auto simp: list_all_iff)
  moreover have "read_cell h b r c = Inr (cell h b r c)" by (rule read_cell_board[OF wf rc])
  ultimately show ?case using Cons.IH[OF rest] p by simp
qed

text \<open>
  C4. For every Sudoku grid (\<open>size\<close> rows of \<open>size\<close> cells) containing no empty cell, the
  backtracking solver reports success and leaves every cell unchanged: the store after
  the run is the store before it. One level of recursion is all it takes. The same holds
  of the solver class run on that grid.
\<close>

theorem solve_board_full_grid:
  assumes "sudoku_board (sudoku_size g) h b"
    and "list_all (list_all (\<lambda>x. x \<noteq> 0)) (grid_of h b)"
    and "0 < depth"
  shows "solve_board depth g h b = Inr (True, h) \<and>
         map_sum id (\<lambda>(ok, s, h'). (ok, h')) (sudoku_solver_solve depth (sudoku_solver_init b) h)
           = Inr (True, h)"
proof -
  from assms(3) obtain d where d: "depth = Suc d" by (cases depth) simp_all
  from assms(1) have len: "length b = sudoku_size g" by (simp add: sudoku_board_def)
  have none: "first_empty h b (List.product [0..<sudoku_size g] [0..<sudoku_size g]) = Inr None"
    by (rule first_empty_full[OF assms(1,2)]) auto
  then have "find_empty_cell (sudoku_solver_init b) h = Inr None"
    by (simp add: find_empty_cell_def sudoku_solver_init_def len)
  with none show ?thesis unfolding d by simp
qed

lemma solved_board:
  "sudoku_board 4 [[1, 2, 3, 4], [3, 4, 1, 2], [2, 1, 4, 3], [4, 3, 2, 1]] [0, 1, 2, 3]"
  "list_all (list_all (\<lambda>x. x \<noteq> 0))
     (grid_of [[1, 2, 3, 4], [3, 4, 1, 2], [2, 1, 4, 3], [4, 3, 2, 1]] [0, 1, 2, 3])"
  by code_simp+

theorem solve_board_full_grid_witness:
  "sudoku_board (sudoku_size (sudoku_generator_init 4))
     [[1, 2, 3, 4], [3, 4, 1, 2], [2, 1, 4, 3], [4, 3, 2, 1]] [0, 1, 2, 3] \<and>
   list_all (list_all (\<lambda>x. x \<noteq> 0))
     (grid_of [[1, 2, 3, 4], [3, 4, 1, 2], [2, 1, 4, 3], [4, 3, 2, 1]] [0, 1, 2, 3]) \<and>
   (0::nat) < 1 \<and>
   solve_board 1 (sudoku_generator_init 4)
     [[1, 2, 3, 4], [3, 4, 1, 2], [2, 1, 4, 3], [4, 3, 2, 1]] [0, 1, 2, 3]
     = Inr (True, [[1, 2, 3, 4], [3, 4, 1, 2], [2, 1, 4, 3], [4, 3, 2, 1]]) \<and>
   map_sum id (\<lambda>(ok, s, h'). (ok, h'))
     (sudoku_solver_solve 1 (sudoku_solver_init [0, 1, 2, 3])
        [[1, 2, 3, 4], [3, 4, 1, 2], [2, 1, 4, 3], [4, 3, 2, 1]])
     = Inr (True, [[1, 2, 3, 4], [3, 4, 1, 2], [2, 1, 4, 3], [4, 3, 2, 1]])"
proof -
  have wf: "sudoku_board (sudoku_size (sudoku_generator_init 4))
     [[1, 2, 3, 4], [3, 4, 1, 2], [2, 1, 4, 3], [4, 3, 2, 1]] [0, 1, 2, 3]"
    using solved_board(1) by (simp add: sudoku_generator_init_def)
  have d: "(0::nat) < 1" by simp
  from solve_board_full_grid[OF wf solved_board(2) d] wf solved_board(2) d
  show ?thesis by blast
qed

subsection \<open>One iteration of remove_numbers\<close>

text \<open>\<open>same_outside tb h h'\<close>: the run from store \<open>h\<close> to \<open>h'\<close> wrote to rows of \<open>tb\<close> only.\<close>

definition same_outside :: "board_ref \<Rightarrow> store \<Rightarrow> store \<Rightarrow> bool" where
  "same_outside tb h h' \<longleftrightarrow> length h' = length h \<and> (\<forall>a. a \<notin> set tb \<longrightarrow> h' ! a = h ! a)"

lemma same_outside_refl: "same_outside tb h h"
  by (simp add: same_outside_def)

lemma same_outside_trans:
  "same_outside tb h h1 \<Longrightarrow> same_outside tb h1 h2 \<Longrightarrow> same_outside tb h h2"
  by (simp add: same_outside_def)

lemma write_cell_same_outside:
  assumes "write_cell h tb row col x = Inr h'"
  shows "same_outside tb h h'"
proof -
  from assms have row: "row < length tb" and h': "h' = h[tb ! row := (h ! (tb ! row))[col := x]]"
    by (auto simp: write_cell_def split: if_splits)
  from row have "tb ! row \<in> set tb" by simp
  then have "a \<notin> set tb \<longrightarrow> h' ! a = h ! a" for a
    unfolding h' by (metis nth_list_update_neq)
  then show ?thesis unfolding same_outside_def h' by simp
qed

lemma sudoku_solver_solve_frame:
  "sudoku_solver_solve depth s h = Inr (ok, s', h') \<Longrightarrow>
     board s' = board s \<and> same_outside (board s) h h'"
  "sudoku_solver_solve_try depth s h row col nums = Inr (ok, s', h') \<Longrightarrow>
     board s' = board s \<and> same_outside (board s) h h'"
proof (induction depth s h and depth s h row col nums arbitrary: ok s' h' and ok s' h'
    rule: sudoku_solver_solve_sudoku_solver_solve_try.induct)
  case (1 s h)
  then show ?case by simp
next
  case (2 depth s h)
  show ?case
  proof (cases "find_empty_cell s h")
    case (Inl e)
    with "2.prems" show ?thesis by simp
  next
    case (Inr found)
    show ?thesis
    proof (cases found)
      case None
      with "2.prems" Inr show ?thesis by (auto simp: same_outside_refl)
    next
      case (Some p)
      obtain row col where p: "p = (row, col)" by (cases p)
      from "2.prems" Inr Some p
      have "sudoku_solver_solve_try depth s h row col [1..int (board_size s)] = Inr (ok, s', h')"
        by simp
      from "2.IH"[OF Inr Some p[symmetric] this] show ?thesis .
    qed
  qed
next
  case (3 depth s h row col)
  then show ?case by (simp add: same_outside_refl)
next
  case (4 depth s h row col num nums)
  show ?case
  proof (cases "sudoku_solver_is_valid_move s h row col num")
    case (Inl e)
    with "4.prems" show ?thesis by simp
  next
    case (Inr valid)
    show ?thesis
    proof (cases valid)
      case False
      then have v: "valid = False" by simp
      from "4.prems" Inr False
      have "sudoku_solver_solve_try depth s h row col nums = Inr (ok, s', h')" by simp
      from "4.IH"(3)[OF Inr v this] show ?thesis .
    next
      case True
      then have v: "valid = True" by simp
      from "4.prems" Inr True obtain h1 where
        w1: "write_cell h (board s) row col num = Inr h1"
        by (auto split: sum.splits)
      from "4.prems" Inr True w1 obtain ok2 s2 h2 where
        rec: "sudoku_solver_solve depth s h1 = Inr (ok2, s2, h2)"
        by (auto split: sum.splits)
      from "4.IH"(1)[OF Inr v w1 rec] have f2: "board s2 = board s" "same_outside (board s) h1 h2"
        by simp_all
      note f1 = write_cell_same_outside[OF w1]
      show ?thesis
      proof (cases ok2)
        case True
        with "4.prems" Inr v w1 rec have "ok = True" "s' = s2" "h' = h2" by simp_all
        with f2 same_outside_trans[OF f1 f2(2)] show ?thesis by simp
      next
        case False
        then have o: "ok2 = False" by simp
        from "4.prems" Inr v w1 rec False obtain h3 where
          w3: "write_cell h2 (board s2) row col 0 = Inr h3"
          and rest: "sudoku_solver_solve_try depth s2 h3 row col nums = Inr (ok, s', h')"
          by (auto split: sum.splits)
        from "4.IH"(2)[OF Inr v w1 rec refl o refl w3 rest]
        have f4: "board s' = board s2" "same_outside (board s2) h3 h'" by simp_all
        from write_cell_same_outside[OF w3] f2(1) have f3: "same_outside (board s) h2 h3" by simp
        from f4 f2(1) same_outside_trans[OF same_outside_trans[OF same_outside_trans[OF f1 f2(2)] f3]]
        show ?thesis by simp
      qed
    qed
  qed
qed

lemma has_unique_solution_frame:
  assumes "has_unique_solution depth h tb = Inr (ok, h')"
  shows "same_outside tb h h'"
proof -
  from assms obtain r s' where "sudoku_solver_solve depth (sudoku_solver_init tb) h = Inr (r, s', h')"
    by (auto simp: has_unique_solution_def split: sum.splits)
  from sudoku_solver_solve_frame(1)[OF this] show ?thesis by (simp add: sudoku_solver_init_def)
qed

text \<open>The probe: copy the board, then ask for uniqueness on the copy.\<close>

lemma probe_leaves_board:
  assumes copy: "copy_board h1 b = Inr (tb, h2)"
    and probe: "has_unique_solution depth h2 tb = Inr (ok, h3)"
  shows "grid_of h3 b = grid_of h1 b"
proof -
  from copy have valid: "\<forall>a \<in> set b. a < length h1"
    and tb: "tb = [length h1..<length h1 + length b]"
    and h2: "h2 = h1 @ map (\<lambda>a. h1 ! a) b"
    by (auto simp: copy_board_def list_all_iff split: if_splits)
  from has_unique_solution_frame[OF probe] have out: "\<forall>a. a \<notin> set tb \<longrightarrow> h3 ! a = h2 ! a"
    by (simp add: same_outside_def)
  have "h3 ! a = h1 ! a" if "a \<in> set b" for a
  proof -
    from that valid have lt: "a < length h1" by blast
    then have "a \<notin> set tb" unfolding tb by simp
    with out have "h3 ! a = h2 ! a" by blast
    also have "\<dots> = h1 ! a" unfolding h2 using lt by (simp add: nth_append)
    finally show ?thesis .
  qed
  then show ?thesis by (simp add: grid_of_def)
qed

lemma grid_of_write:
  assumes "distinct b" "write_cell h b row col x = Inr h'"
  shows "grid_of h' b = (grid_of h b)[row := (grid_of h b ! row)[col := x]]"
proof -
  from assms(2) have row: "row < length b" and a: "b ! row < length h"
    and h': "h' = h[b ! row := (h ! (b ! row))[col := x]]"
    by (auto simp: write_cell_def split: if_splits)
  show ?thesis
  proof (rule nth_equalityI)
    show "length (grid_of h' b) = length ((grid_of h b)[row := (grid_of h b ! row)[col := x]])"
      by (simp add: grid_of_def)
  next
    fix k assume "k < length (grid_of h' b)"
    then have k: "k < length b" by (simp add: grid_of_def)
    show "grid_of h' b ! k = (grid_of h b)[row := (grid_of h b ! row)[col := x]] ! k"
    proof (cases "k = row")
      case True
      with k a show ?thesis unfolding h' by (simp add: grid_of_def)
    next
      case False
      with assms(1) k row have "b ! k \<noteq> b ! row" by (simp add: nth_eq_iff_index_eq)
      with k False show ?thesis unfolding h' by (simp add: grid_of_def)
    qed
  qed
qed

lemma resample_result:
  assumes "resample rnd sz h b row col pos = Some y"
  shows "case y of Inl e \<Rightarrow> True
         | Inr p \<Rightarrow> \<exists>x. read_cell h b (fst p) (fst (snd p)) = Inr x \<and> x \<noteq> 0"
proof (rule resample.raw_induct[where
      P = "\<lambda>rnd sz h b row col pos y. case y of Inl e \<Rightarrow> True
         | Inr p \<Rightarrow> \<exists>x. read_cell h b (fst p) (fst (snd p)) = Inr x \<and> x \<noteq> 0",
      OF _ assms], goal_cases)
  case (1 resample' rnd sz h b row col pos y)
  note IH = 1(1) and body = 1(2)
  show ?case
  proof (cases "read_cell h b row col")
    case (Inl e)
    with body have "y = Inl e" by simp
    then show ?thesis by simp
  next
    case (Inr x)
    show ?thesis
    proof (cases "x = 0")
      case False
      with body Inr have "y = Inr (row, col, pos)" by simp
      with Inr False show ?thesis by simp
    next
      case True
      show ?thesis
      proof (cases "randint0 rnd pos sz")
        case (Inl e)
        with body \<open>read_cell h b row col = Inr x\<close> True have "y = Inl e" by simp
        then show ?thesis by simp
      next
        case r: (Inr r)
        show ?thesis
        proof (cases "randint0 rnd (pos + 1) sz")
          case (Inl e)
          with body \<open>read_cell h b row col = Inr x\<close> True r have "y = Inl e" by simp
          then show ?thesis by simp
        next
          case c: (Inr c)
          with body \<open>read_cell h b row col = Inr x\<close> True r
          have "resample' rnd sz h b r c (pos + 2) = Some y" by simp
          then show ?thesis by (rule IH)
        qed
      qed
    qed
  qed
qed

lemma resample_filled:
  assumes "resample rnd sz h b row col pos = Some (Inr (row', col', pos'))"
  shows "\<exists>x. read_cell h b row' col' = Inr x \<and> x \<noteq> 0"
  using resample_result[OF assms] by simp

lemma remove_one_effect:
  assumes rows: "distinct b"
    and run: "remove_one depth rnd g h b pos = Some (Inr (h', pos'))"
  shows "\<exists>row col. row < length b \<and> col < length (grid_of h b ! row) \<and>
            grid_of h b ! row ! col \<noteq> 0 \<and>
            (grid_of h' b = (grid_of h b)[row := (grid_of h b ! row)[col := 0]] \<or>
             grid_of h' b = grid_of h b)"
proof -
  from run obtain row0 col0 row col temp h1 tb h2 ok h3 where
    pick: "resample rnd (sudoku_size g) h b row0 col0 (pos + 2) = Some (Inr (row, col, pos'))"
    and rd: "read_cell h b row col = Inr temp"
    and w1: "write_cell h b row col 0 = Inr h1"
    and copy: "copy_board h1 b = Inr (tb, h2)"
    and probe: "has_unique_solution depth h2 tb = Inr (ok, h3)"
    and fin: "if ok then h' = h3 else write_cell h3 b row col temp = Inr h'"
    unfolding remove_one_def
    by (auto split: sum.splits option.splits bool.splits)
  from resample_filled[OF pick] rd have filled: "temp \<noteq> 0" by simp
  from rd have row: "row < length b" and col: "col < length (h ! (b ! row))"
    and temp: "temp = h ! (b ! row) ! col"
    by (auto simp: read_cell_def split: if_splits)
  from row have grow: "grid_of h b ! row = h ! (b ! row)" by (simp add: grid_of_def)
  have g1: "grid_of h1 b = (grid_of h b)[row := (grid_of h b ! row)[col := 0]]"
    by (rule grid_of_write[OF rows w1])
  have g3: "grid_of h3 b = grid_of h1 b" by (rule probe_leaves_board[OF copy probe])
  have "grid_of h' b = (grid_of h b)[row := (grid_of h b ! row)[col := 0]] \<or>
        grid_of h' b = grid_of h b"
  proof (cases ok)
    case True
    with fin g1 g3 show ?thesis by simp
  next
    case False
    with fin have w4: "write_cell h3 b row col temp = Inr h'" by simp
    have "grid_of h' b = (grid_of h3 b)[row := (grid_of h3 b ! row)[col := temp]]"
      by (rule grid_of_write[OF rows w4])
    also have "\<dots> = (grid_of h b)[row := (grid_of h b ! row)[col := temp]]"
      unfolding g3 g1 using row by (simp add: grid_of_def)
    also have "\<dots> = grid_of h b"
      unfolding grow temp using row by (simp add: grid_of_def list_update_same_conv)
    finally show ?thesis by simp
  qed
  with row col filled grow temp
  show "\<exists>row col. row < length b \<and> col < length (grid_of h b ! row) \<and>
            grid_of h b ! row ! col \<noteq> 0 \<and>
            (grid_of h' b = (grid_of h b)[row := (grid_of h b ! row)[col := 0]] \<or>
             grid_of h' b = grid_of h b)"
    by (intro exI[of _ row] exI[of _ col]) simp
qed

subsection \<open>An iteration on a well-formed board completes\<close>

definition board_ok :: "nat \<Rightarrow> store \<Rightarrow> board_ref \<Rightarrow> bool" where
  "board_ok sz h b \<longleftrightarrow> sudoku_board sz h b \<and> distinct b"

definition zeros :: "int list list \<Rightarrow> nat" where
  "zeros grid = length (filter (\<lambda>x. x = 0) (concat grid))"

lemma cell_grid: "r < length b \<Longrightarrow> cell h b r c = grid_of h b ! r ! c"
  by (simp add: cell_def grid_of_def)

lemma grid_dims:
  assumes "sudoku_board sz h b"
  shows "length (grid_of h b) = sz" "r < sz \<Longrightarrow> length (grid_of h b ! r) = sz"
proof -
  show "length (grid_of h b) = sz" using assms by (simp add: sudoku_board_def grid_of_def)
  assume r: "r < sz"
  with assms have "b ! r \<in> set b" "r < length b" by (simp_all add: sudoku_board_def)
  with assms show "length (grid_of h b ! r) = sz"
    by (simp add: sudoku_board_def grid_of_def list_all_iff)
qed

lemma count_update:
  assumes "c < length xs" "xs ! c = 0" "x \<noteq> (0::int)"
  shows "Suc (length (filter (\<lambda>x. x = 0) (xs[c := x]))) = length (filter (\<lambda>x. x = 0) xs)"
proof -
  have "xs = take c xs @ xs ! c # drop (Suc c) xs" using assms(1) by (rule id_take_nth_drop)
  then have old: "filter (\<lambda>x. x = 0) xs =
      filter (\<lambda>x. x = 0) (take c xs) @ 0 # filter (\<lambda>x. x = 0) (drop (Suc c) xs)"
    using assms(2) by (metis (mono_tags, lifting) filter.simps(2) filter_append)
  have "xs[c := x] = take c xs @ x # drop (Suc c) xs" using assms(1) by (rule upd_conv_take_nth_drop)
  then have new: "filter (\<lambda>x. x = 0) (xs[c := x]) =
      filter (\<lambda>x. x = 0) (take c xs) @ filter (\<lambda>x. x = 0) (drop (Suc c) xs)"
    using assms(3) by simp
  show ?thesis unfolding new by (subst old) simp
qed

lemma zeros_update:
  assumes "r < length grid" "c < length (grid ! r)" "grid ! r ! c = 0" "x \<noteq> 0"
  shows "Suc (zeros (grid[r := (grid ! r)[c := x]])) = zeros grid"
proof -
  let ?z = "\<lambda>xs :: int list. length (filter (\<lambda>x. x = 0) xs)"
  have g: "grid = take r grid @ grid ! r # drop (Suc r) grid"
    using assms(1) by (rule id_take_nth_drop)
  have g': "grid[r := (grid ! r)[c := x]] = take r grid @ (grid ! r)[c := x] # drop (Suc r) grid"
    using assms(1) by (rule upd_conv_take_nth_drop)
  have "zeros grid = ?z (concat (take r grid)) + ?z (grid ! r) + ?z (concat (drop (Suc r) grid))"
    unfolding zeros_def by (subst g) simp
  moreover have "zeros (grid[r := (grid ! r)[c := x]]) =
      ?z (concat (take r grid)) + ?z ((grid ! r)[c := x]) + ?z (concat (drop (Suc r) grid))"
    unfolding zeros_def g' by simp
  moreover note count_update[OF assms(2,3,4)]
  ultimately show ?thesis by simp
qed

lemma zeros_bound:
  assumes "sudoku_board sz h b"
  shows "zeros (grid_of h b) \<le> sz * sz"
proof -
  have "zeros (grid_of h b) \<le> length (concat (grid_of h b))" by (simp add: zeros_def)
  also have "length (concat (grid_of h b)) = sum_list (map length (grid_of h b))"
    by (simp add: length_concat)
  also have "map length (grid_of h b) = replicate sz sz"
  proof (rule nth_equalityI)
    show "length (map length (grid_of h b)) = length (replicate sz sz)"
      using grid_dims(1)[OF assms] by simp
  next
    fix i assume "i < length (map length (grid_of h b))"
    then have "i < sz" using grid_dims(1)[OF assms] by simp
    then show "map length (grid_of h b) ! i = replicate sz sz ! i"
      using grid_dims[OF assms] by simp
  qed
  also have "sum_list (replicate sz sz) = sz * sz" by (simp add: sum_list_replicate)
  finally show ?thesis .
qed

lemma write_cell_ok:
  assumes ok: "board_ok sz h b" and r: "row < sz" and c: "col < sz"
  shows "\<exists>h'. write_cell h b row col x = Inr h' \<and> board_ok sz h' b \<and>
           grid_of h' b = (grid_of h b)[row := (grid_of h b ! row)[col := x]]"
proof -
  from ok have sb: "sudoku_board sz h b" and d: "distinct b" by (simp_all add: board_ok_def)
  from sb r have rb: "row < length b" "b ! row \<in> set b" by (simp_all add: sudoku_board_def)
  with sb have a: "b ! row < length h" "length (h ! (b ! row)) = sz"
    by (simp_all add: sudoku_board_def list_all_iff)
  let ?h = "h[b ! row := (h ! (b ! row))[col := x]]"
  have w: "write_cell h b row col x = Inr ?h" using rb a c by (simp add: write_cell_def)
  have "sudoku_board sz ?h b"
    unfolding sudoku_board_def list_all_iff
  proof (intro conjI ballI)
    show "length b = sz" using sb by (simp add: sudoku_board_def)
  next
    fix a assume "a \<in> set b"
    with sb have "a < length h" "length (h ! a) = sz" by (simp_all add: sudoku_board_def list_all_iff)
    then show "a < length ?h" "length (?h ! a) = sz"
      using a by (cases "a = b ! row"; simp)+
  qed
  with d have "board_ok sz ?h b" by (simp add: board_ok_def)
  with w grid_of_write[OF d w] show ?thesis by blast
qed

lemma first_empty_ok:
  assumes sb: "sudoku_board sz h b"
  shows "\<forall>p \<in> set cells. fst p < sz \<and> snd p < sz \<Longrightarrow>
     first_empty h b cells = Inr None \<or>
     (\<exists>r c. first_empty h b cells = Inr (Some (r, c)) \<and> r < sz \<and> c < sz \<and> cell h b r c = 0)"
proof (induction cells)
  case Nil
  show ?case by simp
next
  case (Cons p cells)
  obtain r c where p: "p = (r, c)" by (cases p)
  from Cons.prems p have rc: "r < sz" "c < sz"
    and rest: "\<forall>p \<in> set cells. fst p < sz \<and> snd p < sz" by simp_all
  have rd: "read_cell h b r c = Inr (cell h b r c)" by (rule read_cell_board[OF sb rc])
  show ?case
  proof (cases "cell h b r c = 0")
    case True
    with rd p rc show ?thesis by simp
  next
    case False
    with rd p have "first_empty h b (p # cells) = first_empty h b cells" by simp
    with Cons.IH[OF rest] show ?thesis by simp
  qed
qed


definition solver_for :: "nat \<Rightarrow> nat \<Rightarrow> board_ref \<Rightarrow> sudoku_solver \<Rightarrow> bool" where
  "solver_for sz bs b s \<longleftrightarrow> board s = b \<and> board_size s = sz \<and> board_box_size s = bs"

definition solve_result ::
  "nat \<Rightarrow> nat \<Rightarrow> board_ref \<Rightarrow> store \<Rightarrow> error + (bool \<times> sudoku_solver \<times> store) \<Rightarrow> bool" where
  "solve_result sz bs b h res \<longleftrightarrow>
     (\<exists>ok s' h'. res = Inr (ok, s', h') \<and> solver_for sz bs b s' \<and> board_ok sz h' b \<and>
        (\<not> ok \<longrightarrow> grid_of h' b = grid_of h b))"

definition solve_total :: "nat \<Rightarrow> nat \<Rightarrow> board_ref \<Rightarrow> nat \<Rightarrow> bool" where
  "solve_total sz bs b depth \<longleftrightarrow>
     (\<forall>s h. solver_for sz bs b s \<longrightarrow> board_ok sz h b \<longrightarrow> zeros (grid_of h b) < depth \<longrightarrow>
        solve_result sz bs b h (sudoku_solver_solve depth s h))"

definition try_total :: "nat \<Rightarrow> nat \<Rightarrow> board_ref \<Rightarrow> nat \<Rightarrow> bool" where
  "try_total sz bs b depth \<longleftrightarrow>
     (\<forall>s h row col nums. solver_for sz bs b s \<longrightarrow> board_ok sz h b \<longrightarrow> row < sz \<longrightarrow> col < sz \<longrightarrow>
        cell h b row col = 0 \<longrightarrow> zeros (grid_of h b) \<le> depth \<longrightarrow> (\<forall>n \<in> set nums. n \<noteq> 0) \<longrightarrow>
        solve_result sz bs b h (sudoku_solver_solve_try depth s h row col nums))"

lemma restore_grid:
  assumes "r < length grid" "grid ! r ! c = (0::int)"
  shows "(grid[r := (grid ! r)[c := x]])[r := (grid[r := (grid ! r)[c := x]] ! r)[c := 0]] = grid"
proof -
  have "(grid ! r)[c := x, c := 0] = (grid ! r)[c := 0]" by simp
  also have "\<dots> = grid ! r" using assms(2) by (metis list_update_id)
  finally show ?thesis using assms(1) by simp
qed

lemma try_total_from_solve:
  assumes sq: "bs * bs = sz" and solve: "solve_total sz bs b depth"
  shows "try_total sz bs b depth"
  unfolding try_total_def
proof (intro allI impI)
  fix s :: sudoku_solver and h :: store and row col :: nat and nums :: "int list"
  assume "solver_for sz bs b s" "board_ok sz h b" "row < sz" "col < sz" "cell h b row col = 0"
    "zeros (grid_of h b) \<le> depth" "\<forall>n \<in> set nums. n \<noteq> 0"
  then show "solve_result sz bs b h (sudoku_solver_solve_try depth s h row col nums)"
  proof (induction nums arbitrary: s h)
    case Nil
    then show ?case
      unfolding solve_result_def by (intro exI[of _ False] exI[of _ s] exI[of _ h]) simp
  next
    case (Cons num nums)
    note sf = Cons.prems(1) and ok = Cons.prems(2) and r = Cons.prems(3) and c = Cons.prems(4)
      and empty = Cons.prems(5) and z = Cons.prems(6)
    from Cons.prems(7) have num: "num \<noteq> 0" and rest: "\<forall>n \<in> set nums. n \<noteq> 0" by simp_all
    from ok have sb: "sudoku_board sz h b" by (simp add: board_ok_def)
    from sf have fields: "board s = b" "board_size s = sz" "board_box_size s = bs"
      by (simp_all add: solver_for_def)
    obtain v where valid: "sudoku_solver_is_valid_move s h row col num = Inr v"
      using is_valid_move_board[OF sb sq r c, of num]
      by (simp add: sudoku_solver_is_valid_move_def fields)
    show ?case
    proof (cases v)
      case False
      with valid have "sudoku_solver_solve_try depth s h row col (num # nums) =
          sudoku_solver_solve_try depth s h row col nums" by simp
      with Cons.IH[OF sf ok r c empty z rest] show ?thesis by simp
    next
      case True
      let ?g = "grid_of h b"
      from write_cell_ok[OF ok r c, of num] obtain h1 where
        w1: "write_cell h b row col num = Inr h1" and ok1: "board_ok sz h1 b"
        and g1: "grid_of h1 b = ?g[row := (?g ! row)[col := num]]" by blast
      from sb r have rb: "row < length b" by (simp add: sudoku_board_def)
      have rg: "row < length ?g" "col < length (?g ! row)"
        using grid_dims[OF sb] r c by simp_all
      have e: "?g ! row ! col = 0" using empty cell_grid[OF rb, of h col] by simp
      from zeros_update[OF rg e num] g1 z have z1: "zeros (grid_of h1 b) < depth" by simp
      from solve sf ok1 z1 have "solve_result sz bs b h1 (sudoku_solver_solve depth s h1)"
        unfolding solve_total_def by blast
      then obtain ok2 s2 h2 where
        rec: "sudoku_solver_solve depth s h1 = Inr (ok2, s2, h2)"
        and sf2: "solver_for sz bs b s2" and okb2: "board_ok sz h2 b"
        and undo: "\<not> ok2 \<longrightarrow> grid_of h2 b = grid_of h1 b"
        unfolding solve_result_def by blast
      show ?thesis
      proof (cases ok2)
        case yes: True
        with valid True w1 rec fields
        have "sudoku_solver_solve_try depth s h row col (num # nums) = Inr (True, s2, h2)"
          by simp
        with sf2 okb2 show ?thesis
          unfolding solve_result_def by (intro exI[of _ True] exI[of _ s2] exI[of _ h2]) simp
      next
        case no: False
        with undo have g2: "grid_of h2 b = grid_of h1 b" by simp
        from sf2 have b2: "board s2 = b" by (simp add: solver_for_def)
        from write_cell_ok[OF okb2 r c, of 0] obtain h3 where
          w3: "write_cell h2 b row col 0 = Inr h3" and ok3: "board_ok sz h3 b"
          and g3: "grid_of h3 b = (grid_of h2 b)[row := (grid_of h2 b ! row)[col := 0]]" by blast
        have same: "grid_of h3 b = ?g" unfolding g3 g2 g1 by (rule restore_grid[OF rg(1) e])
        have empty3: "cell h3 b row col = 0" using cell_grid[OF rb, of h3 col] same e by simp
        have z3: "zeros (grid_of h3 b) \<le> depth" using same z by simp
        from valid True w1 rec no w3 fields b2
        have step: "sudoku_solver_solve_try depth s h row col (num # nums) =
            sudoku_solver_solve_try depth s2 h3 row col nums" by simp
        from Cons.IH[OF sf2 ok3 r c empty3 z3 rest] show ?thesis
          unfolding step solve_result_def same .
      qed
    qed
  qed
qed

lemma solve_total_step:
  assumes loop: "try_total sz bs b depth"
  shows "solve_total sz bs b (Suc depth)"
  unfolding solve_total_def
proof (intro allI impI)
  fix s :: sudoku_solver and h :: store
  assume sf: "solver_for sz bs b s" and ok: "board_ok sz h b"
    and z: "zeros (grid_of h b) < Suc depth"
  from ok have sb: "sudoku_board sz h b" by (simp add: board_ok_def)
  from sf have fields: "board s = b" "board_size s = sz" "board_box_size s = bs"
    by (simp_all add: solver_for_def)
  have fe: "find_empty_cell s h = first_empty h b (List.product [0..<sz] [0..<sz])"
    by (simp add: find_empty_cell_def fields)
  have "\<forall>p \<in> set (List.product [0..<sz] [0..<sz]). fst p < sz \<and> snd p < sz" by auto
  from first_empty_ok[OF sb this] consider
    "find_empty_cell s h = Inr None"
    | r c where "find_empty_cell s h = Inr (Some (r, c))" "r < sz" "c < sz" "cell h b r c = 0"
    unfolding fe by blast
  then show "solve_result sz bs b h (sudoku_solver_solve (Suc depth) s h)"
  proof cases
    case 1
    then have "sudoku_solver_solve (Suc depth) s h =
        Inr (True, s\<lparr>num_solutions := num_solutions s + 1\<rparr>, h)" by simp
    with sf ok show ?thesis
      unfolding solve_result_def
      by (intro exI[of _ True] exI[of _ "s\<lparr>num_solutions := num_solutions s + 1\<rparr>"] exI[of _ h])
        (simp add: solver_for_def)
  next
    case 2
    then have run: "sudoku_solver_solve (Suc depth) s h =
        sudoku_solver_solve_try depth s h r c [1..int sz]" by (simp add: fields)
    from z have "zeros (grid_of h b) \<le> depth" by simp
    moreover have "\<forall>n \<in> set [1..int sz]. n \<noteq> 0" by auto
    ultimately show ?thesis
      unfolding run using loop sf ok 2(2,3,4) unfolding try_total_def by blast
  qed
qed

lemma solve_total_all:
  assumes "bs * bs = sz"
  shows "solve_total sz bs b depth"
proof (induction depth)
  case 0
  show ?case unfolding solve_total_def by blast
next
  case (Suc depth)
  from solve_total_step[OF try_total_from_solve[OF assms Suc]] show ?case .
qed


lemma copy_board_ok:
  assumes ok: "board_ok sz h b"
  shows "\<exists>tb h2. copy_board h b = Inr (tb, h2) \<and> board_ok sz h2 tb \<and>
           grid_of h2 tb = grid_of h b"
proof -
  from ok have sb: "sudoku_board sz h b" by (simp add: board_ok_def)
  then have len: "length b = sz" and rows: "\<forall>a \<in> set b. a < length h \<and> length (h ! a) = sz"
    by (simp_all add: sudoku_board_def list_all_iff)
  let ?tb = "[length h..<length h + length b]"
  let ?h2 = "h @ map (\<lambda>a. h ! a) b"
  have run: "copy_board h b = Inr (?tb, ?h2)"
    using rows by (simp add: copy_board_def list_all_iff)
  have nth: "?h2 ! (length h + i) = h ! (b ! i)" if "i < length b" for i
    using that by (simp add: nth_append)
  have grid: "grid_of ?h2 ?tb = grid_of h b"
  proof (rule nth_equalityI)
    show "length (grid_of ?h2 ?tb) = length (grid_of h b)" by (simp add: grid_of_def)
  next
    fix i assume "i < length (grid_of ?h2 ?tb)"
    then have i: "i < length b" by (simp add: grid_of_def)
    then show "grid_of ?h2 ?tb ! i = grid_of h b ! i"
      using nth[OF i] by (simp add: grid_of_def)
  qed
  have "sudoku_board sz ?h2 ?tb"
    unfolding sudoku_board_def list_all_iff
  proof (intro conjI ballI)
    show "length ?tb = sz" using len by simp
  next
    fix a assume "a \<in> set ?tb"
    then obtain i where i: "i < length b" and a: "a = length h + i"
      by (metis atLeastLessThan_iff le_Suc_ex nat_add_left_cancel_less set_upt)
    from i rows have "length (h ! (b ! i)) = sz" by simp
    with i show "a < length ?h2" "length (?h2 ! a) = sz" unfolding a nth[OF i] by simp_all
  qed
  then have "board_ok sz ?h2 ?tb" by (simp add: board_ok_def)
  with run grid show ?thesis by blast
qed

lemma has_unique_solution_total:
  assumes "board_ok sz h tb" "int_sqrt sz * int_sqrt sz = sz" "zeros (grid_of h tb) < depth"
  shows "\<exists>ok h'. has_unique_solution depth h tb = Inr (ok, h')"
proof -
  from assms(1) have "length tb = sz" by (simp add: board_ok_def sudoku_board_def)
  then have "solver_for sz (int_sqrt sz) tb (sudoku_solver_init tb)"
    by (simp add: solver_for_def sudoku_solver_init_def)
  with solve_total_all[OF assms(2), of tb depth] assms(1,3)
  have "solve_result sz (int_sqrt sz) tb h (sudoku_solver_solve depth (sudoku_solver_init tb) h)"
    unfolding solve_total_def by blast
  then show ?thesis by (auto simp: solve_result_def has_unique_solution_def)
qed

lemma resample_on_board:
  assumes run: "resample rnd sz h b row col pos = Some y"
  shows "sudoku_board sz h b \<and> 0 < sz \<and> row < sz \<and> col < sz \<longrightarrow>
           (\<exists>row' col' pos'. y = Inr (row', col', pos') \<and> row' < sz \<and> col' < sz)"
proof (rule resample.raw_induct[where
      P = "\<lambda>rnd sz h b row col pos y. sudoku_board sz h b \<and> 0 < sz \<and> row < sz \<and> col < sz \<longrightarrow>
           (\<exists>row' col' pos'. y = Inr (row', col', pos') \<and> row' < sz \<and> col' < sz)",
      OF _ run], goal_cases)
  case (1 resample' rnd sz h b row col pos y)
  note IH = 1(1) and body = 1(2)
  show ?case
  proof
    assume wf: "sudoku_board sz h b \<and> 0 < sz \<and> row < sz \<and> col < sz"
    then have rd: "read_cell h b row col = Inr (cell h b row col)"
      by (intro read_cell_board[of sz]) simp_all
    from wf have draws: "randint0 rnd pos sz = Inr (rnd pos mod sz)"
      "randint0 rnd (pos + 1) sz = Inr (rnd (pos + 1) mod sz)"
      by (simp_all add: randint0_def)
    show "\<exists>row' col' pos'. y = Inr (row', col', pos') \<and> row' < sz \<and> col' < sz"
    proof (cases "cell h b row col = 0")
      case False
      with body rd have "y = Inr (row, col, pos)" by simp
      with wf show ?thesis by simp
    next
      case True
      with body rd draws
      have "resample' rnd sz h b (rnd pos mod sz) (rnd (pos + 1) mod sz) (pos + 2) = Some y"
        by simp
      from IH[OF this] wf show ?thesis by simp
    qed
  qed
qed

lemma remove_one_completes:
  assumes ok: "board_ok (sudoku_size g) h b" and pos: "0 < sudoku_size g"
    and sq: "int_sqrt (sudoku_size g) * int_sqrt (sudoku_size g) = sudoku_size g"
    and depth: "sudoku_size g * sudoku_size g < depth"
    and ends: "remove_one depth rnd g h b pos0 \<noteq> None"
  shows "\<exists>h' pos'. remove_one depth rnd g h b pos0 = Some (Inr (h', pos'))"
proof -
  let ?sz = "sudoku_size g"
  from ok have sb: "sudoku_board ?sz h b" and d: "distinct b" by (simp_all add: board_ok_def)
  let ?r0 = "rnd pos0 mod ?sz" and ?c0 = "rnd (pos0 + 1) mod ?sz"
  have draws: "randint0 rnd pos0 ?sz = Inr ?r0" "randint0 rnd (pos0 + 1) ?sz = Inr ?c0"
    using pos by (simp_all add: randint0_def)
  from ends draws obtain y where pick: "resample rnd ?sz h b ?r0 ?c0 (pos0 + 2) = Some y"
    by (auto simp: remove_one_def split: option.splits)
  from resample_on_board[OF pick] sb pos obtain row col pos' where
    y: "y = Inr (row, col, pos')" and r: "row < ?sz" and c: "col < ?sz" by auto
  have rd: "read_cell h b row col = Inr (cell h b row col)" by (rule read_cell_board[OF sb r c])
  from write_cell_ok[OF ok r c, of 0] obtain h1 where
    w1: "write_cell h b row col 0 = Inr h1" and ok1: "board_ok ?sz h1 b" by blast
  from copy_board_ok[OF ok1] obtain tb h2 where
    copy: "copy_board h1 b = Inr (tb, h2)" and ok2: "board_ok ?sz h2 tb"
    and g2: "grid_of h2 tb = grid_of h1 b" by blast
  from ok1 have sb1: "sudoku_board ?sz h1 b" by (simp add: board_ok_def)
  from zeros_bound[OF sb1] depth g2 have z: "zeros (grid_of h2 tb) < depth" by simp
  from has_unique_solution_total[OF ok2 sq z] obtain u h3 where
    probe: "has_unique_solution depth h2 tb = Inr (u, h3)" by blast
  show ?thesis
  proof (cases u)
    case True
    with draws pick y rd w1 copy probe
    have "remove_one depth rnd g h b pos0 = Some (Inr (h3, pos'))"
      by (simp add: remove_one_def)
    then show ?thesis by blast
  next
    case False
    have g3: "grid_of h3 b = grid_of h1 b" by (rule probe_leaves_board[OF copy probe])
    from copy have valid: "\<forall>a \<in> set b. a < length h1" and h2: "h2 = h1 @ map (\<lambda>a. h1 ! a) b"
      by (auto simp: copy_board_def list_all_iff split: if_splits)
    from has_unique_solution_frame[OF probe] have len3: "length h3 = length h2"
      by (simp add: same_outside_def)
    from sb r have rb: "row < length b" "b ! row \<in> set b" by (simp_all add: sudoku_board_def)
    from rb(2) valid have "b ! row < length h1" by blast
    then have a: "b ! row < length h3" unfolding len3 h2 by simp
    from rb(1) have "h3 ! (b ! row) = grid_of h3 b ! row" by (simp add: grid_of_def)
    also have "\<dots> = grid_of h1 b ! row" by (simp only: g3)
    finally have "length (h3 ! (b ! row)) = ?sz" using grid_dims(2)[OF sb1 r] by simp
    with rb(1) a c obtain h4 where "write_cell h3 b row col (cell h b row col) = Inr h4"
      by (simp add: write_cell_def)
    with False draws pick y rd w1 copy probe
    have "remove_one depth rnd g h b pos0 = Some (Inr (h4, pos'))"
      by (simp add: remove_one_def)
    then show ?thesis by blast
  qed
qed

text \<open>
  C9. Each iteration of \<open>remove_numbers\<close> is atomic with respect to the working board,
  whose rows are distinct objects: an iteration that completes either clears exactly one
  previously filled cell or leaves the board exactly as it was; the uniqueness probe,
  which runs on a copy of the rows, changes no cell of the working board; and on a board
  of \<open>size\<close> rows of \<open>size\<close> cells, \<open>size\<close> a positive perfect square, with a recursion
  budget above the number of cells, every iteration whose sampling loop ends does complete.
\<close>

theorem remove_one_atomic:
  assumes rows: "distinct b"
  shows "(\<forall>h' pos'. remove_one depth rnd g h b pos = Some (Inr (h', pos')) \<longrightarrow>
            (\<exists>row col. row < length b \<and> col < length (grid_of h b ! row) \<and>
               grid_of h b ! row ! col \<noteq> 0 \<and>
               (grid_of h' b = (grid_of h b)[row := (grid_of h b ! row)[col := 0]] \<or>
                grid_of h' b = grid_of h b))) \<and>
         (\<forall>h1 tb h2 ok h3.
            copy_board h1 b = Inr (tb, h2) \<and> has_unique_solution depth h2 tb = Inr (ok, h3) \<longrightarrow>
            grid_of h3 b = grid_of h1 b) \<and>
         (sudoku_board (sudoku_size g) h b \<and> 0 < sudoku_size g \<and>
          int_sqrt (sudoku_size g) * int_sqrt (sudoku_size g) = sudoku_size g \<and>
          sudoku_size g * sudoku_size g < depth \<and> remove_one depth rnd g h b pos \<noteq> None \<longrightarrow>
            (\<exists>h' pos'. remove_one depth rnd g h b pos = Some (Inr (h', pos'))))"
proof (intro conjI allI impI)
  fix h' pos'
  assume "remove_one depth rnd g h b pos = Some (Inr (h', pos'))"
  from remove_one_effect[OF rows this]
  show "\<exists>row col. row < length b \<and> col < length (grid_of h b ! row) \<and>
               grid_of h b ! row ! col \<noteq> 0 \<and>
               (grid_of h' b = (grid_of h b)[row := (grid_of h b ! row)[col := 0]] \<or>
                grid_of h' b = grid_of h b)" .
next
  fix h1 tb h2 ok h3
  assume "copy_board h1 b = Inr (tb, h2) \<and> has_unique_solution depth h2 tb = Inr (ok, h3)"
  then show "grid_of h3 b = grid_of h1 b" using probe_leaves_board by blast
next
  assume a: "sudoku_board (sudoku_size g) h b \<and> 0 < sudoku_size g \<and>
          int_sqrt (sudoku_size g) * int_sqrt (sudoku_size g) = sudoku_size g \<and>
          sudoku_size g * sudoku_size g < depth \<and> remove_one depth rnd g h b pos \<noteq> None"
  with rows have "board_ok (sudoku_size g) h b" by (simp add: board_ok_def)
  with a show "\<exists>h' pos'. remove_one depth rnd g h b pos = Some (Inr (h', pos'))"
    by (intro remove_one_completes) simp_all
qed

lemma remove_one_small_run:
  "remove_one 1000 (\<lambda>_. 0) (sudoku_generator_init 4)
     [[1, 2, 3, 4], [3, 4, 1, 2], [2, 1, 4, 3], [4, 3, 2, 1]] [0, 1, 2, 3] 0 =
   Some (Inr ([[0, 2, 3, 4], [3, 4, 1, 2], [2, 1, 4, 3], [4, 3, 2, 1],
               [1, 2, 3, 4], [3, 4, 1, 2], [2, 1, 4, 3], [4, 3, 2, 1]], 2))"
  "copy_board [[0, 2, 3, 4], [3, 4, 1, 2], [2, 1, 4, 3], [4, 3, 2, 1]] [0, 1, 2, 3] =
   Inr ([4, 5, 6, 7], [[0, 2, 3, 4], [3, 4, 1, 2], [2, 1, 4, 3], [4, 3, 2, 1],
                       [0, 2, 3, 4], [3, 4, 1, 2], [2, 1, 4, 3], [4, 3, 2, 1]])"
  "has_unique_solution 1000
     [[0, 2, 3, 4], [3, 4, 1, 2], [2, 1, 4, 3], [4, 3, 2, 1],
      [0, 2, 3, 4], [3, 4, 1, 2], [2, 1, 4, 3], [4, 3, 2, 1]] [4, 5, 6, 7] =
   Inr (True, [[0, 2, 3, 4], [3, 4, 1, 2], [2, 1, 4, 3], [4, 3, 2, 1],
               [1, 2, 3, 4], [3, 4, 1, 2], [2, 1, 4, 3], [4, 3, 2, 1]])"
  by code_simp+

theorem remove_one_atomic_witness:
  "distinct [0, 1, 2, 3 :: nat] \<and>
   remove_one 1000 (\<lambda>_. 0) (sudoku_generator_init 4)
     [[1, 2, 3, 4], [3, 4, 1, 2], [2, 1, 4, 3], [4, 3, 2, 1]] [0, 1, 2, 3] 0 =
   Some (Inr ([[0, 2, 3, 4], [3, 4, 1, 2], [2, 1, 4, 3], [4, 3, 2, 1],
               [1, 2, 3, 4], [3, 4, 1, 2], [2, 1, 4, 3], [4, 3, 2, 1]], 2)) \<and>
   (\<exists>row col. row < length [0, 1, 2, 3 :: nat] \<and>
      col < length (grid_of [[1, 2, 3, 4], [3, 4, 1, 2], [2, 1, 4, 3], [4, 3, 2, 1]] [0, 1, 2, 3] ! row) \<and>
      grid_of [[1, 2, 3, 4], [3, 4, 1, 2], [2, 1, 4, 3], [4, 3, 2, 1]] [0, 1, 2, 3] ! row ! col \<noteq> 0 \<and>
      (grid_of [[0, 2, 3, 4], [3, 4, 1, 2], [2, 1, 4, 3], [4, 3, 2, 1],
                [1, 2, 3, 4], [3, 4, 1, 2], [2, 1, 4, 3], [4, 3, 2, 1]] [0, 1, 2, 3] =
         (grid_of [[1, 2, 3, 4], [3, 4, 1, 2], [2, 1, 4, 3], [4, 3, 2, 1]] [0, 1, 2, 3])
           [row := (grid_of [[1, 2, 3, 4], [3, 4, 1, 2], [2, 1, 4, 3], [4, 3, 2, 1]] [0, 1, 2, 3] ! row)
              [col := 0]] \<or>
       grid_of [[0, 2, 3, 4], [3, 4, 1, 2], [2, 1, 4, 3], [4, 3, 2, 1],
                [1, 2, 3, 4], [3, 4, 1, 2], [2, 1, 4, 3], [4, 3, 2, 1]] [0, 1, 2, 3] =
         grid_of [[1, 2, 3, 4], [3, 4, 1, 2], [2, 1, 4, 3], [4, 3, 2, 1]] [0, 1, 2, 3])) \<and>
   grid_of [[0, 2, 3, 4], [3, 4, 1, 2], [2, 1, 4, 3], [4, 3, 2, 1],
            [1, 2, 3, 4], [3, 4, 1, 2], [2, 1, 4, 3], [4, 3, 2, 1]] [0, 1, 2, 3] =
     grid_of [[0, 2, 3, 4], [3, 4, 1, 2], [2, 1, 4, 3], [4, 3, 2, 1]] [0, 1, 2, 3]"
proof -
  have d: "distinct [0, 1, 2, 3 :: nat]" by simp
  note inst = remove_one_atomic[OF d, of 1000 "\<lambda>_. 0" "sudoku_generator_init 4"
      "[[1, 2, 3, 4], [3, 4, 1, 2], [2, 1, 4, 3], [4, 3, 2, 1]]" 0]
  from inst[THEN conjunct2, THEN conjunct1] remove_one_small_run(2,3)
  have "grid_of [[0, 2, 3, 4], [3, 4, 1, 2], [2, 1, 4, 3], [4, 3, 2, 1],
            [1, 2, 3, 4], [3, 4, 1, 2], [2, 1, 4, 3], [4, 3, 2, 1]] [0, 1, 2, 3] =
     grid_of [[0, 2, 3, 4], [3, 4, 1, 2], [2, 1, 4, 3], [4, 3, 2, 1]] [0, 1, 2, 3]"
    by blast
  with inst[THEN conjunct1] d remove_one_small_run(1) show ?thesis by blast
qed

end
